theory Spec2Isabelle
  imports Complex_Main
begin

section \<open>Vector arithmetic\<close>

text \<open>
  The program computes with Python floats and with the two-dimensional vectors of its
  graphics library. A vector is a pair of reals, and the few vector operations the
  program calls follow the library's documented meaning. In the physics step floats
  are read as the real numbers they approximate; the fitness measure is evaluated with
  the rounding of double precision (section Double precision below).
\<close>

type_synonym Vector2 = "real \<times> real"

datatype error = ValueError | IndexError | AttributeError

definition vadd :: "Vector2 \<Rightarrow> Vector2 \<Rightarrow> Vector2" where
  "vadd u v = (fst u + fst v, snd u + snd v)"

definition vsub :: "Vector2 \<Rightarrow> Vector2 \<Rightarrow> Vector2" where
  "vsub u v = (fst u - fst v, snd u - snd v)"

definition smul :: "Vector2 \<Rightarrow> real \<Rightarrow> Vector2" where
  "smul v k = (fst v * k, snd v * k)"

definition dot :: "Vector2 \<Rightarrow> Vector2 \<Rightarrow> real" where
  "dot u v = fst u * fst v + snd u * snd v"

definition vlength :: "Vector2 \<Rightarrow> real" where
  "vlength v = sqrt (fst v * fst v + snd v * snd v)"

text \<open>\<open>rotate_vec\<close> turns a vector by an angle given in degrees, from the x axis towards the y axis.\<close>

definition rotate_vec :: "Vector2 \<Rightarrow> real \<Rightarrow> Vector2" where
  "rotate_vec v deg =
     (let t = deg * pi / 180
      in (fst v * cos t - snd v * sin t, fst v * sin t + snd v * cos t))"

text \<open>\<open>normalize_vec\<close> raises \<open>ValueError\<close> on the zero vector.\<close>

definition normalize_vec :: "Vector2 \<Rightarrow> error + Vector2" where
  "normalize_vec v = (if vlength v = 0 then Inl ValueError else Inr (smul v (1 / vlength v)))"

text \<open>\<open>reflect\<close> mirrors a vector at the line whose unit normal is given.\<close>

definition reflect :: "Vector2 \<Rightarrow> Vector2 \<Rightarrow> Vector2" where
  "reflect v n = vsub v (smul n (2 * dot v n))"


section \<open>Double precision\<close>

text \<open>
  \<open>dbl x\<close> is the double nearest to \<open>x\<close>: the significand is rounded to 53 bits, a tie
  going to the even significand. The exponent range is not bounded, so overflow and
  subnormal numbers are not modelled; neither arises in the fitness measure for a ball
  at a finite position, except that a huge distance overflows to infinity where this
  model has a huge number, and both are clamped to 7. \<open>rne\<close> rounds to the nearest
  integer, ties to even, and \<open>binade x\<close> is the exponent of \<open>x\<close>.
\<close>

definition rne :: "real \<Rightarrow> int" where
  "rne y =
     (let f = \<lfloor>y\<rfloor>; r = y - of_int f
      in if r < 1 / 2 then f else if 1 / 2 < r then f + 1 else if even f then f else f + 1)"

definition binade :: "real \<Rightarrow> int" where
  "binade x = \<lfloor>log 2 \<bar>x\<bar>\<rfloor>"

definition dbl :: "real \<Rightarrow> real" where
  "dbl x =
     (if x = 0 then 0
      else (let u = 2 powr (of_int (binade x) - 52) in of_int (rne (x / u)) * u))"

text \<open>Vector subtraction and length as the library computes them in doubles.\<close>

definition vsub_dbl :: "Vector2 \<Rightarrow> Vector2 \<Rightarrow> Vector2" where
  "vsub_dbl u v = (dbl (fst u - fst v), dbl (snd u - snd v))"

definition vlength_dbl :: "Vector2 \<Rightarrow> real" where
  "vlength_dbl v = dbl (sqrt (dbl (dbl (fst v * fst v) + dbl (snd v * snd v))))"


section \<open>Settings\<close>

definition WINDOW_WIDTH :: real where "WINDOW_WIDTH = 720"
definition WINDOW_HEIGHT :: real where "WINDOW_HEIGHT = 720"
definition UNIT :: real where "UNIT = 100"
definition FPS :: nat where "FPS = 60"
definition GRAVITY :: real where "GRAVITY = 9.81"
definition AIR_FRICTION :: real where "AIR_FRICTION = 0.008"
definition SHOT_DURATION :: real where "SHOT_DURATION = 7.0"
definition MUTATION_CHANCE :: real where "MUTATION_CHANCE = 0.0"


section \<open>The random source\<close>

text \<open>
  The module-level generator is made explicit: an unbounded supply of raw draws, of
  which every call consumes the first. \<open>randint lo hi\<close> answers an integer between
  \<open>lo\<close> and \<open>hi\<close> inclusive, \<open>random\<close> a multiple of \<open>2 ^ -53\<close> in the half-open
  unit interval; every such answer is produced by some raw draw.
\<close>

type_synonym rng = "nat \<Rightarrow> nat"

definition rdrop :: "nat \<Rightarrow> rng \<Rightarrow> rng" where
  "rdrop k r = (\<lambda>n. r (n + k))"

definition int_of_draw :: "int \<Rightarrow> int \<Rightarrow> nat \<Rightarrow> int" where
  "int_of_draw lo hi x = lo + int (x mod nat (hi - lo + 1))"

definition unit_of_draw :: "nat \<Rightarrow> real" where
  "unit_of_draw x = real (x mod 2 ^ 53) / 2 ^ 53"

definition randint :: "int \<Rightarrow> int \<Rightarrow> rng \<Rightarrow> int \<times> rng" where
  "randint lo hi r = (int_of_draw lo hi (r 0), rdrop 1 r)"

definition random :: "rng \<Rightarrow> real \<times> rng" where
  "random r = (unit_of_draw (r 0), rdrop 1 r)"


section \<open>Basketball\<close>

text \<open>
  The counter \<open>gene_i\<close> starts at 0 and is only ever incremented, hence a natural
  number. The three gene attributes exist from \<open>create_genes\<close> on; the record holds
  them from the start, empty.
\<close>

record Basketball =
  position :: Vector2
  velocity :: Vector2
  force :: Vector2
  mass :: real
  invmass :: real
  radius :: real
  elasticity :: real
  fframe :: real
  frame :: int
  gene_i :: nat
  gene_dir :: "int list"
  gene_strength :: "int list"

definition Basketball_init :: "Vector2 \<Rightarrow> Basketball" where
  "Basketball_init p =
     \<lparr>position = p, velocity = (0, 0), force = (0, 0),
      mass = 0.625, invmass = 1 / 0.625, radius = 0.121 * 4, elasticity = 0.8,
      fframe = 0.0, frame = 0,
      gene_i = 0, gene_dir = [], gene_strength = []\<rparr>"

fun create_loop :: "nat \<Rightarrow> int list \<Rightarrow> int list \<Rightarrow> rng \<Rightarrow> int list \<times> int list \<times> rng" where
  "create_loop 0 gd gs r = (gd, gs, r)"
| "create_loop (Suc n) gd gs r =
     (let (d, r1) = randint 0 359 r;
          (s, r2) = randint 65 2300 r1
      in create_loop n (gd @ [d]) (gs @ [s]) r2)"

definition create_genes :: "Basketball \<Rightarrow> rng \<Rightarrow> Basketball \<times> rng" where
  "create_genes b r =
     (let (gd, gs, r') = create_loop 3 [] [] r
      in (b\<lparr>gene_i := 0, gene_dir := gd, gene_strength := gs\<rparr>, r'))"

text \<open>The force a gene stands for: the unit vector along x, turned, times the strength.\<close>

definition gene_force :: "int \<Rightarrow> int \<Rightarrow> Vector2" where
  "gene_force d s = smul (rotate_vec (1, 0) (real_of_int d)) (real_of_int s)"

definition apply_gene :: "Basketball \<Rightarrow> error + Basketball" where
  "apply_gene b =
     (if gene_i b = length (gene_dir b) then Inr b
      else if gene_i b < length (gene_dir b) \<and> gene_i b < length (gene_strength b)
      then Inr (b\<lparr>force := gene_force (gene_dir b ! gene_i b) (gene_strength b ! gene_i b),
                  gene_i := gene_i b + 1\<rparr>)
      else Inl IndexError)"

text \<open>The fitness, in double arithmetic; the literals 5.85 and 2.6 are doubles.\<close>

definition fitness :: "Basketball \<Rightarrow> real" where
  "fitness b =
     (let f = vlength_dbl (vsub_dbl (position b) (dbl 5.85, dbl 2.6));
          f' = (if f > 7 then 7 else f)
      in dbl (dbl (7 - f') / 7))"

text \<open>One physics step, statement by statement.\<close>

definition integrate_acceleration :: "real \<Rightarrow> Basketball \<Rightarrow> Basketball" where
  "integrate_acceleration dt b =
     (let acceleration = vadd (smul (force b) (invmass b)) (0, GRAVITY)
      in b\<lparr>velocity := vadd (velocity b) (smul acceleration dt)\<rparr>)"

definition hits_wall_x :: "Vector2 \<Rightarrow> Basketball \<Rightarrow> bool" where
  "hits_wall_x future_vel b \<longleftrightarrow>
     fst (position b) + fst future_vel - radius b < 0 \<or>
     fst (position b) + fst future_vel + radius b > WINDOW_WIDTH / UNIT"

definition hits_wall_y :: "Vector2 \<Rightarrow> Basketball \<Rightarrow> bool" where
  "hits_wall_y future_vel b \<longleftrightarrow>
     snd (position b) + snd future_vel - radius b < 0 \<or>
     snd (position b) + snd future_vel + radius b > WINDOW_HEIGHT / UNIT"

definition resolve_walls :: "Vector2 \<Rightarrow> Basketball \<Rightarrow> Basketball" where
  "resolve_walls future_vel b =
     (let b1 = (if hits_wall_x future_vel b
                then b\<lparr>velocity := (fst (velocity b) * - elasticity b, snd (velocity b))\<rparr>
                else b)
      in if hits_wall_y future_vel b1
         then b1\<lparr>velocity := (fst (velocity b1), snd (velocity b1) * - elasticity b1)\<rparr>
         else b1)"

definition net_of :: "Basketball \<Rightarrow> Vector2" where
  "net_of b = (max 5.3 (fst (position b)), 3.2)"

definition net_dist :: "Vector2 \<Rightarrow> Basketball \<Rightarrow> real" where
  "net_dist future_vel b = vlength (vsub (net_of b) (vadd (position b) future_vel))"

definition resolve_net :: "Vector2 \<Rightarrow> Basketball \<Rightarrow> error + Basketball" where
  "resolve_net future_vel b =
     (let net = net_of b;
          dist = net_dist future_vel b;
          radii = radius b + 0.3
      in if dist \<le> radii
         then (case normalize_vec (vsub net (position b)) of
                 Inl e \<Rightarrow> Inl e
               | Inr normal \<Rightarrow>
                   Inr (b\<lparr>velocity := smul (reflect (velocity b) normal) (elasticity b)\<rparr>))
         else Inr b)"

definition integrate_velocity :: "real \<Rightarrow> Basketball \<Rightarrow> Basketball" where
  "integrate_velocity dt b =
     (let b1 = b\<lparr>velocity := smul (velocity b) (1 - AIR_FRICTION)\<rparr>;
          b2 = b1\<lparr>position := vadd (position b1) (smul (velocity b1) dt)\<rparr>
      in b2\<lparr>force := (0, 0)\<rparr>)"

definition update :: "real \<Rightarrow> Basketball \<Rightarrow> error + Basketball" where
  "update dt b =
     (let b1 = integrate_acceleration dt b;
          future_vel = smul (velocity b1) dt
      in case resolve_net future_vel (resolve_walls future_vel b1) of
           Inl e \<Rightarrow> Inl e
         | Inr b2 \<Rightarrow> Inr (integrate_velocity dt b2))"

section \<open>Generation\<close>

record Generation =
  population :: "Basketball list"
  last_gene :: nat

text \<open>A loop over the balls that stops at the first exception.\<close>

fun for_each :: "(Basketball \<Rightarrow> error + Basketball) \<Rightarrow> Basketball list \<Rightarrow> error + Basketball list" where
  "for_each f [] = Inr []"
| "for_each f (b # bs) =
     (case f b of
        Inl e \<Rightarrow> Inl e
      | Inr b' \<Rightarrow> (case for_each f bs of Inl e \<Rightarrow> Inl e | Inr bs' \<Rightarrow> Inr (b' # bs')))"

fun create_genes_all :: "Basketball list \<Rightarrow> rng \<Rightarrow> Basketball list \<times> rng" where
  "create_genes_all [] r = ([], r)"
| "create_genes_all (b # bs) r =
     (let (b', r1) = create_genes b r;
          (bs', r2) = create_genes_all bs r1
      in (b' # bs', r2))"

definition Generation_init :: "nat \<Rightarrow> rng \<Rightarrow> error + Generation \<times> rng" where
  "Generation_init n r =
     (let balls = replicate n (Basketball_init (50 / UNIT, 650 / UNIT));
          (balls1, r1) = create_genes_all balls r
      in case for_each apply_gene balls1 of
           Inl e \<Rightarrow> Inl e
         | Inr balls2 \<Rightarrow> Inr (\<lparr>population = balls2, last_gene = 0\<rparr>, r1))"

definition highest_fitness :: "Generation \<Rightarrow> error + real" where
  "highest_fitness g =
     (let fitness_vals = map fitness (population g)
      in if fitness_vals = [] then Inl IndexError else Inr (last (sort fitness_vals)))"

text \<open>\<open>winner\<close> answers \<open>None\<close> when its loop ends without a match.\<close>

definition winner :: "Generation \<Rightarrow> error + Basketball option" where
  "winner g =
     (case highest_fitness g of
        Inl e \<Rightarrow> Inl e
      | Inr highest \<Rightarrow> Inr (find (\<lambda>ball. fitness ball = highest) (population g)))"

definition Generation_update :: "real \<Rightarrow> Generation \<Rightarrow> error + bool \<times> Generation" where
  "Generation_update dt g =
     (let t = last_gene g + 1
      in if real t > real FPS * SHOT_DURATION
         then (case population g of
                 [] \<Rightarrow> Inl IndexError
               | b0 # _ \<Rightarrow>
                   if gene_i b0 = 3 then Inr (True, g\<lparr>last_gene := 0\<rparr>)
                   else (case for_each apply_gene (population g) of
                           Inl e \<Rightarrow> Inl e
                         | Inr balls1 \<Rightarrow>
                             (case for_each (update dt) balls1 of
                                Inl e \<Rightarrow> Inl e
                              | Inr balls2 \<Rightarrow>
                                  Inr (False, g\<lparr>population := balls2, last_gene := 0\<rparr>))))
         else (case for_each (update dt) (population g) of
                 Inl e \<Rightarrow> Inl e
               | Inr balls2 \<Rightarrow> Inr (False, g\<lparr>population := balls2, last_gene := t\<rparr>)))"

text \<open>Successive calls of \<open>Generation.update\<close>, one per entry of a list of time steps.\<close>

fun run :: "Generation \<Rightarrow> real list \<Rightarrow> error + bool list \<times> Generation" where
  "run g [] = Inr ([], g)"
| "run g (dt # dts) =
     (case Generation_update dt g of
        Inl e \<Rightarrow> Inl e
      | Inr (done, g1) \<Rightarrow>
          (case run g1 dts of
             Inl e \<Rightarrow> Inl e
           | Inr (ds, g2) \<Rightarrow> Inr (done # ds, g2)))"


section \<open>Solver\<close>

record Solver =
  solver_population :: nat
  generation :: Generation
  generation_n :: nat

definition Solver_init :: "nat \<Rightarrow> rng \<Rightarrow> error + Solver \<times> rng" where
  "Solver_init n r =
     (case Generation_init n r of
        Inl e \<Rightarrow> Inl e
      | Inr (g, r1) \<Rightarrow> Inr (\<lparr>solver_population = n, generation = g, generation_n = 0\<rparr>, r1))"

text \<open>Reading slot \<open>i\<close> of the winner's genes; the winner may be \<open>None\<close>.\<close>

definition winner_dir :: "Basketball option \<Rightarrow> nat \<Rightarrow> error + int" where
  "winner_dir w i =
     (case w of
        None \<Rightarrow> Inl AttributeError
      | Some b \<Rightarrow> if i < length (gene_dir b) then Inr (gene_dir b ! i) else Inl IndexError)"

definition winner_strength :: "Basketball option \<Rightarrow> nat \<Rightarrow> error + int" where
  "winner_strength w i =
     (case w of
        None \<Rightarrow> Inl AttributeError
      | Some b \<Rightarrow> if i < length (gene_strength b) then Inr (gene_strength b ! i) else Inl IndexError)"

text \<open>The body of the loop over the three slots: the new direction and strength of slot \<open>i\<close>.\<close>

definition inherit_gene :: "Basketball option \<Rightarrow> nat \<Rightarrow> rng \<Rightarrow> error + (int \<times> int) \<times> rng" where
  "inherit_gene w i r =
     (let (u, r1) = random r
      in if u < 0.75
         then (let (u2, r2) = random r1
               in case (if u2 < MUTATION_CHANCE then Inr (randint 0 359 r2)
                        else (case winner_dir w i of Inl e \<Rightarrow> Inl e | Inr d \<Rightarrow> Inr (d, r2))) of
                    Inl e \<Rightarrow> Inl e
                  | Inr (d, r3) \<Rightarrow>
                      (let (u3, r4) = random r3
                       in case (if u3 < MUTATION_CHANCE then Inr (randint 65 2300 r4)
                                else (case winner_strength w i of
                                        Inl e \<Rightarrow> Inl e
                                      | Inr s \<Rightarrow> Inr (s, r4))) of
                            Inl e \<Rightarrow> Inl e
                          | Inr (s, r5) \<Rightarrow> Inr ((d, s), r5)))
         else (let (d, r2) = randint 0 359 r1;
                   (s, r3) = randint 65 2300 r2
               in Inr ((d, s), r3)))"

fun inherit_loop :: "Basketball option \<Rightarrow> nat list \<Rightarrow> int list \<Rightarrow> int list \<Rightarrow> rng
    \<Rightarrow> error + int list \<times> int list \<times> rng" where
  "inherit_loop w [] gd gs r = Inr (gd, gs, r)"
| "inherit_loop w (i # is) gd gs r =
     (case inherit_gene w i r of
        Inl e \<Rightarrow> Inl e
      | Inr ((d, s), r1) \<Rightarrow> inherit_loop w is (gd @ [d]) (gs @ [s]) r1)"

fun overwrite_genes :: "Basketball option \<Rightarrow> Basketball list \<Rightarrow> rng \<Rightarrow> error + Basketball list \<times> rng" where
  "overwrite_genes w [] r = Inr ([], r)"
| "overwrite_genes w (ball # balls) r =
     (case inherit_loop w [0, 1, 2] [] [] r of
        Inl e \<Rightarrow> Inl e
      | Inr (gd, gs, r1) \<Rightarrow>
          (case overwrite_genes w balls r1 of
             Inl e \<Rightarrow> Inl e
           | Inr (balls', r2) \<Rightarrow> Inr (ball\<lparr>gene_dir := gd, gene_strength := gs\<rparr> # balls', r2)))"

definition next_generation :: "Solver \<Rightarrow> rng \<Rightarrow> error + Solver \<times> rng" where
  "next_generation s r =
     (case winner (generation s) of
        Inl e \<Rightarrow> Inl e
      | Inr w \<Rightarrow>
          (case Generation_init (solver_population s) r of
             Inl e \<Rightarrow> Inl e
           | Inr (g, r1) \<Rightarrow>
               (case overwrite_genes w (population g) r1 of
                  Inl e \<Rightarrow> Inl e
                | Inr (balls, r2) \<Rightarrow>
                    Inr (s\<lparr>generation := g\<lparr>population := balls\<rparr>,
                           generation_n := generation_n s + 1\<rparr>, r2))))"

text \<open>\<open>Solver.update\<close>; the line it prints needs the highest fitness, which can raise.\<close>

definition Solver_update :: "real \<Rightarrow> Solver \<Rightarrow> rng \<Rightarrow> error + Solver \<times> rng" where
  "Solver_update dt s r =
     (case Generation_update dt (generation s) of
        Inl e \<Rightarrow> Inl e
      | Inr (is_done, g) \<Rightarrow>
          if is_done
          then (case highest_fitness g of
                  Inl e \<Rightarrow> Inl e
                | Inr _ \<Rightarrow> next_generation (s\<lparr>generation := g\<rparr>) r)
          else Inr (s\<lparr>generation := g\<rparr>, r))"

text \<open>
  The generations that the public operations can produce: built by a constructor, or
  obtained from such a generation by a call that returns.
\<close>

inductive reachable :: "Generation \<Rightarrow> bool" where
  construct: "Generation_init n r = Inr (g, r') \<Longrightarrow> reachable g"
| solver_construct: "Solver_init n r = Inr (s, r') \<Longrightarrow> reachable (generation s)"
| generation_update: "reachable g \<Longrightarrow> Generation_update dt g = Inr (d, g') \<Longrightarrow> reachable g'"
| solver_update:
    "reachable (generation s) \<Longrightarrow> Solver_update dt s r = Inr (s', r') \<Longrightarrow> reachable (generation s')"
| solver_next:
    "reachable (generation s) \<Longrightarrow> next_generation s r = Inr (s', r') \<Longrightarrow> reachable (generation s')"


section \<open>Named inputs\<close>

text \<open>
  The distance from a ball to the target point of the fitness measure, as the fitness
  computes it.
\<close>

definition target_distance :: "Basketball \<Rightarrow> real" where
  "target_distance b = vlength_dbl (vsub_dbl (position b) (dbl 5.85, dbl 2.6))"

text \<open>
  Three balls: at the target (5.85, 2.6), one double above it at (5.85, 2.6000000000000005)
  and 8 to the right of it at (13.85, 2.6).
\<close>

definition at_target :: Basketball where
  "at_target = Basketball_init (dbl 5.85, dbl 2.6)"

definition next_to_target :: Basketball where
  "next_to_target = Basketball_init (dbl 5.85, dbl 2.6 + 1 / 2 ^ 51)"

definition far_from_target :: Basketball where
  "far_from_target = Basketball_init (dbl 5.85 + 8, dbl 2.6)"

text \<open>
  A ball at the launch position whose first gene has direction 90 and strength 1000,
  the outcome of applying that gene and taking one step of a sixtieth of a second, and
  the ball that outcome is.
\<close>

definition scenario_ball :: Basketball where
  "scenario_ball =
     (Basketball_init (0.5, 6.5))\<lparr>gene_dir := [90, 0, 0], gene_strength := [1000, 65, 65]\<rparr>"

definition scenario_after :: "error + Basketball" where
  "scenario_after =
     (case apply_gene scenario_ball of Inl e \<Rightarrow> Inl e | Inr b \<Rightarrow> update (1 / 60) b)"

definition scenario_updated :: Basketball where
  "scenario_updated =
     (Basketball_init (0.5, 6.5))
       \<lparr>position := (0.5, 86415839 / 14062500), velocity := (0, - (4990411 / 234375)),
        gene_i := 1, gene_dir := [90, 0, 0], gene_strength := [1000, 65, 65]\<rparr>"

text \<open>A ball dropping towards the floor from just above it, with no force on it.\<close>

definition dropped_ball :: Basketball where
  "dropped_ball = (Basketball_init (0.5, 7))\<lparr>velocity := (0, 1)\<rparr>"

text \<open>
  What the constructor makes of the random source: the genes \<open>create_genes\<close> draws for
  a ball when the source is in state \<open>r\<close>, and the ball as the constructor leaves it,
  its first gene applied.
\<close>

definition fresh_dirs :: "rng \<Rightarrow> int list" where
  "fresh_dirs r =
     [fst (randint 0 359 r), fst (randint 0 359 (rdrop 2 r)), fst (randint 0 359 (rdrop 4 r))]"

definition fresh_strengths :: "rng \<Rightarrow> int list" where
  "fresh_strengths r =
     [fst (randint 65 2300 (rdrop 1 r)), fst (randint 65 2300 (rdrop 3 r)),
      fst (randint 65 2300 (rdrop 5 r))]"

definition launched_ball :: "rng \<Rightarrow> Basketball" where
  "launched_ball r =
     (Basketball_init (50 / UNIT, 650 / UNIT))
       \<lparr>force := gene_force (fresh_dirs r ! 0) (fresh_strengths r ! 0), gene_i := 1,
        gene_dir := fresh_dirs r, gene_strength := fresh_strengths r\<rparr>"

text \<open>A ball holds three genes, each within the ranges of \<open>create_genes\<close>.\<close>

definition genes_ok :: "Basketball \<Rightarrow> bool" where
  "genes_ok b \<longleftrightarrow>
     length (gene_dir b) = 3 \<and> length (gene_strength b) = 3 \<and>
     (\<forall>d \<in> set (gene_dir b). 0 \<le> d \<and> d \<le> 359) \<and>
     (\<forall>s \<in> set (gene_strength b). 65 \<le> s \<and> s \<le> 2300)"

text \<open>All balls of a generation are at gene \<open>k\<close>.\<close>

definition lockstep :: "Generation \<Rightarrow> nat \<Rightarrow> bool" where
  "lockstep g k \<longleftrightarrow> k \<le> 3 \<and> (\<forall>b \<in> set (population g). gene_i b = k \<and> genes_ok b)"

text \<open>
  A ball at rest at the launch position, and a generation of such balls at a common
  gene index. A step of length 0 leaves such a ball where it is.
\<close>

definition parked :: "Basketball \<Rightarrow> bool" where
  "parked b \<longleftrightarrow>
     position b = (50 / UNIT, 650 / UNIT) \<and> velocity b = (0, 0) \<and> radius b = 0.121 * 4 \<and>
     length (gene_dir b) = 3 \<and> length (gene_strength b) = 3"

definition parked_generation :: "Generation \<Rightarrow> bool" where
  "parked_generation g \<longleftrightarrow>
     population g \<noteq> [] \<and>
     (\<exists>k \<le> 3. \<forall>b \<in> set (population g). parked b \<and> gene_i b = k)"

text \<open>The generation a constructor builds for two balls when every raw draw is 0.\<close>

definition sample_generation :: Generation where
  "sample_generation =
     \<lparr>population = [launched_ball (\<lambda>_. 0), launched_ball (\<lambda>_. 0)], last_gene = 0\<rparr>"

text \<open>
  The gene \<open>next_generation\<close> writes into slot \<open>i\<close> of a ball when the winner is \<open>w\<close>
  and the random source is in state \<open>r\<close> as the slot begins: the first draw decides
  between the winner's gene and two fresh draws. (The two mutation draws of the
  inheriting branch are consumed and, \<open>MUTATION_CHANCE\<close> being 0, never mutate.)
\<close>

definition slot_gene :: "Basketball \<Rightarrow> nat \<Rightarrow> rng \<Rightarrow> int \<times> int" where
  "slot_gene w i r =
     (if fst (random r) < 0.75 then (gene_dir w ! i, gene_strength w ! i)
      else (fst (randint 0 359 (rdrop 1 r)), fst (randint 65 2300 (rdrop 2 r))))"

definition slot_genes :: "Basketball \<Rightarrow> rng \<Rightarrow> (int \<times> int) list" where
  "slot_genes w r = [slot_gene w 0 r, slot_gene w 1 (rdrop 3 r), slot_gene w 2 (rdrop 6 r)]"

text \<open>A solver whose current generation is the sample generation.\<close>

definition sample_solver :: Solver where
  "sample_solver = \<lparr>solver_population = 2, generation = sample_generation, generation_n = 0\<rparr>"

text \<open>
  The later states of a ball: those it reaches by any sequence of \<open>apply_gene\<close> and
  \<open>update\<close> calls that return.
\<close>

inductive later_state :: "Basketball \<Rightarrow> Basketball \<Rightarrow> bool" where
  now: "later_state b b"
| gene: "later_state b c \<Longrightarrow> apply_gene c = Inr c' \<Longrightarrow> later_state b c'"
| step: "later_state b c \<Longrightarrow> update dt c = Inr c' \<Longrightarrow> later_state b c'"

text \<open>
  A random source whose first draw is 180, all others 0: the first gene of the first
  ball is then direction 180, strength 65. With it, the generation the constructor
  builds for one ball, and two time steps for its first two \<open>update\<close> calls.
\<close>

definition crash_rng :: rng where
  "crash_rng = (\<lambda>n. if n = 0 then 180 else 0)"

definition crash_generation :: Generation where
  "crash_generation = \<lparr>population = [launched_ball crash_rng], last_gene = 0\<rparr>"

definition crash_steps :: "real list" where
  "crash_steps = [sqrt (34375 / 81096), 0]"


section \<open>Vectors and single steps\<close>

lemma vlength_nonneg: "0 \<le> vlength v"
  by (simp add: vlength_def)

lemma vlength_ge_fst: "\<bar>fst v\<bar> \<le> vlength v"
  unfolding vlength_def by (rule real_le_rsqrt) (simp add: power2_eq_square)

lemma vlength_ge_snd: "\<bar>snd v\<bar> \<le> vlength v"
  unfolding vlength_def by (rule real_le_rsqrt) (simp add: power2_eq_square)

lemma vlength_axis_y: "vlength (0, y) = \<bar>y\<bar>"
  by (simp add: vlength_def)

lemma vlength_unit: "vlength (rotate_vec (1, 0) t) = 1"
  by (simp add: vlength_def rotate_vec_def Let_def power2_eq_square[symmetric])

lemma gene_force_90: "gene_force 90 s = (0, real_of_int s)"
proof -
  have "(90::real) * pi / 180 = pi / 2" by simp
  then show ?thesis by (simp add: gene_force_def rotate_vec_def smul_def Let_def)
qed

text \<open>The step of a ball whose predicted position stays clear of the net.\<close>

lemma update_clear:
  assumes "radius b + 0.3 < net_dist (smul (velocity (integrate_acceleration dt b)) dt) b"
  shows "update dt b =
    Inr (integrate_velocity dt
          (resolve_walls (smul (velocity (integrate_acceleration dt b)) dt)
             (integrate_acceleration dt b)))"
proof -
  let ?b1 = "integrate_acceleration dt b"
  let ?fv = "smul (velocity ?b1) dt"
  have "net_dist ?fv (resolve_walls ?fv ?b1) = net_dist ?fv b"
    by (simp add: net_dist_def net_of_def resolve_walls_def integrate_acceleration_def Let_def)
  moreover have "radius (resolve_walls ?fv ?b1) = radius b"
    by (simp add: resolve_walls_def integrate_acceleration_def Let_def)
  ultimately show ?thesis using assms
    by (simp add: update_def resolve_net_def Let_def)
qed

lemma net_dist_ge_x:
  "\<bar>max 5.3 (fst (position b)) - (fst (position b) + fst fv)\<bar> \<le> net_dist fv b"
  using vlength_ge_fst[of "vsub (net_of b) (vadd (position b) fv)"]
  by (simp add: net_dist_def net_of_def vsub_def vadd_def)

lemmas step_defs = integrate_acceleration_def resolve_walls_def hits_wall_x_def
  hits_wall_y_def integrate_velocity_def
  vadd_def vsub_def smul_def GRAVITY_def AIR_FRICTION_def WINDOW_WIDTH_def
  WINDOW_HEIGHT_def UNIT_def


section \<open>The launch scenario\<close>

text \<open>
  C2, as stated, fails. The ball starts at (0.5, 6.5) with the gene of direction 90 and
  strength 1000. Applying the gene gives the force (0, 1000), which points towards
  the floor at y = 7.2. The first step of 1/60 s predicts a position below the floor, so
  the vertical velocity is reversed before the position is integrated: after the step
  the vertical velocity is not positive and the height is not above 6.5.
\<close>

theorem scenario_counterexample:
  "scenario_after = Inr scenario_updated \<and>
   \<not> 0 < snd (velocity scenario_updated) \<and> \<not> 6.5 < snd (position scenario_updated)"
proof -
  let ?b1 = "(Basketball_init (0.5, 6.5))
       \<lparr>force := (0, 1000), gene_i := 1, gene_dir := [90, 0, 0],
        gene_strength := [1000, 65, 65]\<rparr>"
  have a: "apply_gene scenario_ball = Inr ?b1"
    by (simp add: scenario_ball_def apply_gene_def gene_force_90 Basketball_init_def)
  have "radius ?b1 + 0.3
      < net_dist (smul (velocity (integrate_acceleration (1 / 60) ?b1)) (1 / 60)) ?b1"
    using net_dist_ge_x[of ?b1 "smul (velocity (integrate_acceleration (1 / 60) ?b1)) (1 / 60)"]
    by (simp add: Basketball_init_def step_defs)
  then have "update (1 / 60) ?b1 = Inr scenario_updated"
    by (simp add: update_clear)
       (simp add: Basketball_init_def step_defs scenario_updated_def Let_def)
  then show ?thesis using a
    by (simp add: scenario_after_def) (simp add: scenario_updated_def)
qed

text \<open>
  C2, amended: for a fresh ball at (0.5, 6.5), of mass 0.625, whose current gene is
  direction 90 and strength 1000 (the other genes are arbitrary), \<open>apply_gene\<close> sets the
  force to exactly (0, 1000); the first \<open>update (1/60)\<close> then returns with the velocity
  (0, -(1000 / 0.625 + GRAVITY) / 60 * 0.8 * (1 - AIR_FRICTION)), so the vertical
  velocity is negative and the height has dropped below 6.5.
\<close>

theorem scenario_bounces_off_floor:
  "\<exists>b1 b2.
     apply_gene ((Basketball_init (0.5, 6.5))\<lparr>gene_dir := 90 # ds, gene_strength := 1000 # ss\<rparr>)
       = Inr b1 \<and>
     force b1 = (0, 1000) \<and> update (1 / 60) b1 = Inr b2 \<and>
     velocity b2 = (0, - ((1000 / 0.625 + GRAVITY) / 60 * 0.8 * (1 - AIR_FRICTION))) \<and>
     snd (velocity b2) < 0 \<and> snd (position b2) < 6.5"
proof -
  let ?b1 = "(Basketball_init (0.5, 6.5))
       \<lparr>force := (0, 1000), gene_i := 1, gene_dir := 90 # ds, gene_strength := 1000 # ss\<rparr>"
  let ?b2 = "integrate_velocity (1 / 60)
          (resolve_walls (smul (velocity (integrate_acceleration (1 / 60) ?b1)) (1 / 60))
             (integrate_acceleration (1 / 60) ?b1))"
  have a: "apply_gene ((Basketball_init (0.5, 6.5))
             \<lparr>gene_dir := 90 # ds, gene_strength := 1000 # ss\<rparr>) = Inr ?b1"
    by (simp add: apply_gene_def gene_force_90 Basketball_init_def)
  have "radius ?b1 + 0.3
      < net_dist (smul (velocity (integrate_acceleration (1 / 60) ?b1)) (1 / 60)) ?b1"
    using net_dist_ge_x[of ?b1 "smul (velocity (integrate_acceleration (1 / 60) ?b1)) (1 / 60)"]
    by (simp add: Basketball_init_def step_defs)
  then have u: "update (1 / 60) ?b1 = Inr ?b2"
    by (rule update_clear)
  have v: "velocity ?b2 = (0, - ((1000 / 0.625 + GRAVITY) / 60 * 0.8 * (1 - AIR_FRICTION)))"
    by (simp add: Basketball_init_def step_defs Let_def)
  have p: "snd (position ?b2) < 6.5"
    by (simp add: Basketball_init_def step_defs Let_def)
  have f: "force ?b1 = (0, 1000)" by simp
  have n: "snd (velocity ?b2) < 0"
    by (simp add: Basketball_init_def step_defs Let_def)
  from a f u v n p show ?thesis by blast
qed


section \<open>Rounding to double precision\<close>

lemma rne_of_int: "rne (of_int n) = n"
  by (simp add: rne_def)

lemma rne_between: "\<lfloor>y\<rfloor> \<le> rne y \<and> rne y \<le> \<lfloor>y\<rfloor> + 1"
  by (simp add: rne_def Let_def)

lemma rne_mono:
  assumes "x \<le> y"
  shows "rne x \<le> rne y"
proof (cases "\<lfloor>x\<rfloor> = \<lfloor>y\<rfloor>")
  case True
  with assms show ?thesis by (auto simp: rne_def Let_def)
next
  case False
  with assms have "\<lfloor>x\<rfloor> + 1 \<le> \<lfloor>y\<rfloor>"
    using floor_mono[of x y] by linarith
  with rne_between[of x] rne_between[of y] show ?thesis by linarith
qed

lemma rne_tie_even:
  assumes "even n"
  shows "rne (of_int n - 1 / 2) = n"
proof -
  have "\<lfloor>(of_int n :: real) - 1 / 2\<rfloor> = n - 1" by linarith
  moreover have "odd (n - 1)" using assms by simp
  ultimately show ?thesis by (simp add: rne_def Let_def)
qed

lemma binade_bounds:
  assumes "0 < x"
  shows "2 powr of_int (binade x) \<le> x \<and> x < 2 powr (of_int (binade x) + 1)"
  using assms floor_log_eq_powr_iff[of x 2 "binade x"] by (simp add: binade_def)

lemma binade_eq:
  assumes "2 powr of_int e \<le> x" and "x < 2 powr (of_int e + 1)"
  shows "binade x = e"
proof -
  have "0 < 2 powr (of_int e :: real)" by simp
  with assms(1) have "0 < x" by linarith
  with assms floor_log_eq_powr_iff[of x 2 e] show ?thesis by (simp add: binade_def)
qed

lemma dbl_0: "dbl 0 = 0"
  by (simp add: dbl_def)

lemma dbl_in_binade:
  assumes "2 powr of_int e \<le> x" and "x < 2 powr (of_int e + 1)"
  shows "dbl x = of_int (rne (x / 2 powr (of_int e - 52))) * 2 powr (of_int e - 52)"
proof -
  have "0 < 2 powr (of_int e :: real)" by simp
  with assms(1) have "x \<noteq> 0" by linarith
  then show ?thesis by (simp add: dbl_def binade_eq[OF assms] Let_def)
qed

text \<open>A number with a 53-bit significand is its own rounding.\<close>

lemma dbl_representable:
  assumes "2 ^ 52 \<le> m" and "m < 2 ^ 53"
  shows "dbl (of_int m * 2 powr (of_int e - 52)) = of_int m * 2 powr (of_int e - 52)"
proof -
  let ?u = "2 powr (of_int e - 52) :: real"
  have u: "0 < ?u" by simp
  have e0: "2 powr of_int e = 2 ^ 52 * ?u"
    by (simp add: powr_diff)
  have e1: "2 powr (of_int e + 1) = 2 ^ 53 * ?u"
    by (simp add: powr_diff powr_add)
  from assms have "(2 ^ 52 :: real) \<le> of_int m" "of_int m < (2 ^ 53 :: real)"
    by (metis of_int_le_iff of_int_numeral of_int_power, metis of_int_less_iff of_int_numeral of_int_power)
  with u have "2 powr of_int e \<le> of_int m * ?u" "of_int m * ?u < 2 powr (of_int e + 1)"
    unfolding e0 e1 by simp_all
  from dbl_in_binade[OF this] u show ?thesis by (simp add: rne_of_int)
qed

lemma dbl_pow2: "dbl (2 powr of_int e) = 2 powr of_int e"
proof -
  let ?x = "of_int (2 ^ 52) * 2 powr (of_int e - 52) :: real"
  have b: "?x = 2 powr of_int e"
    by (simp add: powr_diff)
  have "dbl ?x = ?x"
    by (rule dbl_representable) simp_all
  then show ?thesis unfolding b .
qed

lemma dbl_1: "dbl 1 = 1"
  using dbl_pow2[of 0] by simp

lemma dbl_7: "dbl 7 = 7"
proof -
  let ?x = "of_int (7 * 2 ^ 50) * 2 powr (of_int 2 - 52) :: real"
  have b: "?x = 7"
    by (simp add: powr_neg_numeral)
  have "dbl ?x = ?x"
    by (rule dbl_representable) simp_all
  then show ?thesis unfolding b .
qed

text \<open>The tie just below 7 rounds up to 7, whose significand is even.\<close>

lemma dbl_below_7: "dbl (7 - 1 / 2 ^ 51) = 7"
proof -
  let ?x = "7 - 1 / 2 ^ 51 :: real"
  have "2 powr of_int 2 \<le> ?x" "?x < 2 powr (of_int 2 + 1)"
    by simp_all
  from dbl_in_binade[OF this]
  have "dbl ?x = of_int (rne (?x / 2 powr (- 50))) * 2 powr (- 50)" by simp
  moreover have "?x / 2 powr (- 50) = of_int (7 * 2 ^ 50) - 1 / 2"
    by (simp add: powr_neg_numeral field_simps)
  moreover have "rne (of_int (7 * 2 ^ 50) - 1 / 2) = 7 * 2 ^ 50"
    by (rule rne_tie_even) simp
  ultimately show ?thesis by (simp add: powr_neg_numeral)
qed

lemma dbl_bounds:
  assumes "0 < x"
  shows "2 powr of_int (binade x) \<le> dbl x \<and> dbl x \<le> 2 powr (of_int (binade x) + 1)"
proof -
  let ?e = "binade x"
  let ?u = "2 powr (of_int ?e - 52) :: real"
  have u: "0 < ?u" by simp
  have e0: "2 powr of_int ?e = 2 ^ 52 * ?u" by (simp add: powr_diff)
  have e1: "2 powr (of_int ?e + 1) = 2 ^ 53 * ?u" by (simp add: powr_diff powr_add)
  from binade_bounds[OF assms] have "2 ^ 52 * ?u \<le> x" "x < 2 ^ 53 * ?u"
    unfolding e0 e1 by simp_all
  with u have q: "of_int (2 ^ 52) \<le> x / ?u" "x / ?u \<le> of_int (2 ^ 53)"
    by (simp_all add: field_simps)
  from rne_mono[OF q(1)] rne_mono[OF q(2)]
  have "2 ^ 52 \<le> rne (x / ?u)" "rne (x / ?u) \<le> 2 ^ 53"
    by (simp_all only: rne_of_int)
  then have "(2 ^ 52 :: real) \<le> of_int (rne (x / ?u))" "of_int (rne (x / ?u)) \<le> (2 ^ 53 :: real)"
    by (metis of_int_le_iff of_int_numeral of_int_power)+
  with u have "2 ^ 52 * ?u \<le> of_int (rne (x / ?u)) * ?u"
    "of_int (rne (x / ?u)) * ?u \<le> 2 ^ 53 * ?u"
    by simp_all
  moreover have "dbl x = of_int (rne (x / ?u)) * ?u"
    using assms by (simp add: dbl_def Let_def)
  ultimately show ?thesis unfolding e0 e1 by simp
qed

lemma dbl_nonneg:
  assumes "0 \<le> x"
  shows "0 \<le> dbl x"
proof (cases "x = 0")
  case True
  then show ?thesis by (simp add: dbl_0)
next
  case False
  with assms have "0 < x" by simp
  from dbl_bounds[OF this] have "2 powr of_int (binade x) \<le> dbl x" by simp
  moreover have "0 < 2 powr (of_int (binade x) :: real)" by simp
  ultimately show ?thesis by linarith
qed

lemma dbl_mono:
  assumes "0 \<le> x" and "x \<le> y"
  shows "dbl x \<le> dbl y"
proof (cases "x = 0")
  case True
  with assms dbl_nonneg[of y] show ?thesis by (simp add: dbl_0)
next
  case False
  with assms have x: "0 < x" and y: "0 < y" by simp_all
  have "log 2 x \<le> log 2 y" using x assms(2) by simp
  then have le: "binade x \<le> binade y"
    using x y by (simp add: binade_def floor_mono)
  show ?thesis
  proof (cases "binade x = binade y")
    case True
    let ?u = "2 powr (of_int (binade y) - 52) :: real"
    have u: "0 < ?u" by simp
    from assms(2) u have "x / ?u \<le> y / ?u" by (simp add: divide_right_mono)
    from rne_mono[OF this] have "(of_int (rne (x / ?u)) :: real) \<le> of_int (rne (y / ?u))"
      by simp
    with u have "of_int (rne (x / ?u)) * ?u \<le> of_int (rne (y / ?u)) * ?u"
      by simp
    with x y True show ?thesis by (simp add: dbl_def Let_def)
  next
    case False
    with le have "of_int (binade x) + 1 \<le> (of_int (binade y) :: real)" by linarith
    then have "2 powr (of_int (binade x) + 1) \<le> (2 powr of_int (binade y) :: real)"
      by simp
    with dbl_bounds[OF x] dbl_bounds[OF y] show ?thesis by linarith
  qed
qed


section \<open>Fitness\<close>

lemma vlength_dbl_nonneg: "0 \<le> vlength_dbl v"
proof -
  have "0 \<le> dbl (fst v * fst v)" "0 \<le> dbl (snd v * snd v)"
    by (rule dbl_nonneg, simp)+
  then have "0 \<le> dbl (dbl (fst v * fst v) + dbl (snd v * snd v))"
    by (intro dbl_nonneg) simp
  then have "0 \<le> sqrt (dbl (dbl (fst v * fst v) + dbl (snd v * snd v)))" by simp
  then show ?thesis unfolding vlength_dbl_def by (rule dbl_nonneg)
qed

lemma fitness_eq:
  "fitness b = dbl (dbl (7 - min (target_distance b) 7) / 7)"
  by (simp add: fitness_def target_distance_def Let_def min_def)

lemma clamped_mono:
  assumes "0 \<le> m" and "m \<le> n" and "n \<le> 7"
  shows "0 \<le> dbl (dbl (7 - n) / 7) \<and> dbl (dbl (7 - n) / 7) \<le> dbl (dbl (7 - m) / 7) \<and>
         dbl (dbl (7 - m) / 7) \<le> 1"
proof -
  from assms have "dbl (7 - n) \<le> dbl (7 - m)" by (intro dbl_mono) simp_all
  moreover from assms have n0: "0 \<le> dbl (7 - n)" by (intro dbl_nonneg) simp
  moreover from assms have "dbl (7 - m) \<le> dbl 7" by (intro dbl_mono) simp_all
  ultimately have q: "0 \<le> dbl (7 - n) / 7" "dbl (7 - n) / 7 \<le> dbl (7 - m) / 7"
    "dbl (7 - m) / 7 \<le> 1"
    by (simp_all add: dbl_7)
  from q(1) have a: "0 \<le> dbl (dbl (7 - n) / 7)" by (rule dbl_nonneg)
  from q(1,2) have b: "dbl (dbl (7 - n) / 7) \<le> dbl (dbl (7 - m) / 7)" by (rule dbl_mono)
  from q have "dbl (dbl (7 - m) / 7) \<le> dbl 1" by (intro dbl_mono) simp_all
  with a b show ?thesis by (simp add: dbl_1)
qed

lemma target_distance_above:
  assumes "dbl t = t" and "dbl (t * t) = t * t" and "0 \<le> t"
  shows "target_distance (Basketball_init (dbl 5.85, dbl 2.6 + t)) = t"
  using assms
  by (simp add: target_distance_def vsub_dbl_def vlength_dbl_def Basketball_init_def dbl_0)

lemma target_distance_right:
  assumes "dbl t = t" and "dbl (t * t) = t * t" and "0 \<le> t"
  shows "target_distance (Basketball_init (dbl 5.85 + t, dbl 2.6)) = t"
  using assms
  by (simp add: target_distance_def vsub_dbl_def vlength_dbl_def Basketball_init_def dbl_0)

lemma dbl_small: "dbl (1 / 2 ^ 51) = 1 / 2 ^ 51" "dbl (1 / 2 ^ 51 * (1 / 2 ^ 51)) = 1 / 2 ^ 51 * (1 / 2 ^ 51)"
proof -
  have a: "2 powr of_int (- 51) = (1 / 2 ^ 51 :: real)"
    and b: "2 powr of_int (- 102) = (1 / 2 ^ 51 * (1 / 2 ^ 51) :: real)"
    by (simp_all add: powr_neg_numeral)
  show "dbl (1 / 2 ^ 51) = 1 / 2 ^ 51" using dbl_pow2[of "- 51"] unfolding a .
  show "dbl (1 / 2 ^ 51 * (1 / 2 ^ 51)) = 1 / 2 ^ 51 * (1 / 2 ^ 51)"
    using dbl_pow2[of "- 102"] unfolding b .
qed

lemma dbl_eight: "dbl 8 = 8" "dbl (8 * 8) = 8 * 8"
proof -
  have a: "2 powr of_int 3 = (8 :: real)" and b: "2 powr of_int 6 = (8 * 8 :: real)"
    by simp_all
  show "dbl 8 = 8" using dbl_pow2[of 3] unfolding a .
  show "dbl (8 * 8) = 8 * 8" using dbl_pow2[of 6] unfolding b .
qed

lemma sample_distances:
  "target_distance at_target = 0" "target_distance next_to_target = 1 / 2 ^ 51"
  "target_distance far_from_target = 8"
proof -
  show "target_distance at_target = 0"
    using target_distance_above[of 0] by (simp add: at_target_def dbl_0)
  show "target_distance next_to_target = 1 / 2 ^ 51"
    unfolding next_to_target_def by (rule target_distance_above[OF dbl_small]) simp
  show "target_distance far_from_target = 8"
    unfolding far_from_target_def by (rule target_distance_right[OF dbl_eight]) simp
qed

text \<open>The literals 5.85 and 2.6 as doubles, and the sample positions, which are doubles.\<close>

lemma rne_near:
  assumes "of_int n - 1 / 2 < y" and "y < of_int n + 1 / 2"
  shows "rne y = n"
proof (cases "of_int n \<le> y")
  case True
  with assms have "\<lfloor>y\<rfloor> = n" by (intro floor_unique) simp_all
  with assms show ?thesis by (simp add: rne_def Let_def)
next
  case False
  with assms have "\<lfloor>y\<rfloor> = n - 1" by (intro floor_unique) simp_all
  with assms show ?thesis by (simp add: rne_def Let_def)
qed

lemma target_literals:
  "dbl 5.85 = 6586514455029350 / 2 ^ 50" "dbl 2.6 = 5854679515581645 / 2 ^ 51"
proof -
  have u2: "2 powr (of_int 2 - 52) = (1 / 2 ^ 50 :: real)"
    and u1: "2 powr (of_int 1 - 52) = (1 / 2 ^ 51 :: real)"
    by (simp_all add: powr_neg_numeral)
  have r2: "rne (5.85 / (1 / 2 ^ 50)) = 6586514455029350"
    by (rule rne_near) simp_all
  have r1: "rne (2.6 / (1 / 2 ^ 51)) = 5854679515581645"
    by (rule rne_near) simp_all
  have "dbl 5.85 = of_int (rne (5.85 / 2 powr (of_int 2 - 52))) * 2 powr (of_int 2 - 52)"
    by (rule dbl_in_binade) simp_all
  then show "dbl 5.85 = 6586514455029350 / 2 ^ 50"
    unfolding u2 r2 by simp
  have "dbl 2.6 = of_int (rne (2.6 / 2 powr (of_int 1 - 52))) * 2 powr (of_int 1 - 52)"
    by (rule dbl_in_binade) simp_all
  then show "dbl 2.6 = 5854679515581645 / 2 ^ 51"
    unfolding u1 r1 by simp
qed

lemma sample_coordinates:
  "dbl (dbl 5.85) = dbl 5.85" "dbl (dbl 2.6) = dbl 2.6"
  "dbl (dbl 2.6 + 1 / 2 ^ 51) = dbl 2.6 + 1 / 2 ^ 51"
  "dbl (dbl 5.85 + 8) = dbl 5.85 + 8"
proof -
  let ?a = "of_int 6586514455029350 * 2 powr (of_int 2 - 52) :: real"
  have a: "?a = dbl 5.85"
    unfolding target_literals by (simp add: powr_neg_numeral)
  have "dbl ?a = ?a" by (rule dbl_representable) simp_all
  then show "dbl (dbl 5.85) = dbl 5.85" unfolding a .
  let ?b = "of_int 5854679515581645 * 2 powr (of_int 1 - 52) :: real"
  have b: "?b = dbl 2.6"
    unfolding target_literals by (simp add: powr_neg_numeral)
  have "dbl ?b = ?b" by (rule dbl_representable) simp_all
  then show "dbl (dbl 2.6) = dbl 2.6" unfolding b .
  let ?y = "of_int 5854679515581646 * 2 powr (of_int 1 - 52) :: real"
  have y: "?y = dbl 2.6 + 1 / 2 ^ 51"
    unfolding target_literals by (simp add: powr_neg_numeral)
  have "dbl ?y = ?y" by (rule dbl_representable) simp_all
  then show "dbl (dbl 2.6 + 1 / 2 ^ 51) = dbl 2.6 + 1 / 2 ^ 51" unfolding y .
  let ?x = "of_int 7796856854885171 * 2 powr (of_int 3 - 52) :: real"
  have x: "?x = dbl 5.85 + 8"
    unfolding target_literals by (simp add: powr_neg_numeral)
  have "dbl ?x = ?x" by (rule dbl_representable) simp_all
  then show "dbl (dbl 5.85 + 8) = dbl 5.85 + 8" unfolding x .
qed

lemma sample_positions:
  "position at_target = (dbl 5.85, dbl 2.6)"
  "position next_to_target = (dbl 5.85, dbl 2.6 + 1 / 2 ^ 51)"
  "position far_from_target = (dbl 5.85 + 8, dbl 2.6)"
  by (simp_all only: at_target_def next_to_target_def far_from_target_def
      Basketball_init_def Basketball.simps)

lemma sample_fitness: "fitness at_target = 1" "fitness next_to_target = 1"
proof -
  have "fitness at_target = dbl (dbl 7 / 7)"
    by (simp add: fitness_eq sample_distances(1))
  then show "fitness at_target = 1" by (simp add: dbl_7 dbl_1)
  have m: "min (1 / 2 ^ 51) (7::real) = 1 / 2 ^ 51" by simp
  have "fitness next_to_target = dbl (dbl (7 - 1 / 2 ^ 51) / 7)"
    by (simp only: fitness_eq sample_distances(2) m)
  also have "\<dots> = dbl (7 / 7)" by (simp only: dbl_below_7)
  finally show "fitness next_to_target = 1" by (simp add: dbl_1)
qed

text \<open>
  C5, as stated, fails. The ball at the target and the ball one double above it, whose
  height 2.6000000000000005 is a double, have the distances 0 and 2^-51 to the target,
  both at most 7, yet 7 - 2^-51 rounds to 7 and both have the fitness 1: the fitness is
  not strictly decreasing.
\<close>

theorem fitness_strictness_counterexample:
  "position at_target = (dbl 5.85, dbl 2.6) \<and>
   position next_to_target = (dbl 5.85, dbl 2.6 + 1 / 2 ^ 51) \<and>
   dbl (dbl 2.6 + 1 / 2 ^ 51) = dbl 2.6 + 1 / 2 ^ 51 \<and>
   target_distance at_target < target_distance next_to_target \<and>
   target_distance next_to_target \<le> 7 \<and>
   \<not> fitness next_to_target < fitness at_target"
proof -
  have "target_distance at_target < target_distance next_to_target"
    "target_distance next_to_target \<le> 7" "\<not> fitness next_to_target < fitness at_target"
    by (simp_all add: sample_distances sample_fitness)
  with sample_positions(1,2) sample_coordinates(3) show ?thesis by blast
qed

text \<open>
  C5, amended: the fitness of a ball is (7 - min d 7) / 7 evaluated in double
  arithmetic, where d is the distance from its position to the target (5.85, 2.6) as
  computed. It lies between 0 and 1, it never increases with the distance (of two
  balls the farther one has at most the fitness of the nearer), and it is 0 at
  distance 7 or more.
\<close>

theorem fitness_weakly_decreasing:
  "fitness a = dbl (dbl (7 - min (target_distance a) 7) / 7) \<and>
   0 \<le> fitness a \<and> fitness a \<le> 1 \<and>
   (target_distance a \<le> target_distance b \<longrightarrow> fitness b \<le> fitness a) \<and>
   (7 \<le> target_distance a \<longrightarrow> fitness a = 0)"
proof -
  have d: "0 \<le> target_distance c" for c
    by (simp add: target_distance_def vlength_dbl_nonneg)
  have r: "0 \<le> fitness c \<and> fitness c \<le> 1" for c
    using clamped_mono[of "min (target_distance c) 7" "min (target_distance c) 7"] d[of c]
    by (simp add: fitness_eq)
  have m: "fitness b \<le> fitness a" if "target_distance a \<le> target_distance b"
    using clamped_mono[of "min (target_distance a) 7" "min (target_distance b) 7"] d[of a] that
    by (simp add: fitness_eq min_def)
  have z: "fitness a = 0" if "7 \<le> target_distance a"
    using that by (simp add: fitness_eq min_def dbl_0)
  from r[of a] m z show ?thesis by (simp add: fitness_eq)
qed

theorem fitness_weakly_decreasing_witness:
  "target_distance at_target \<le> target_distance next_to_target \<and>
   fitness next_to_target \<le> fitness at_target \<and>
   7 \<le> target_distance far_from_target \<and> fitness far_from_target = 0"
  using fitness_weakly_decreasing[of at_target next_to_target]
    fitness_weakly_decreasing[of far_from_target far_from_target]
  by (simp add: sample_distances)


section \<open>Applying a gene\<close>

text \<open>
  C8: for a ball that holds three directions and three strengths, \<open>apply_gene\<close> returns
  the ball unchanged when \<open>gene_i\<close> is 3. When \<open>gene_i\<close> is below 3 it sets the force to
  the vector (cos t, sin t), t the current direction in degrees, a vector of length 1,
  times the current strength, increments \<open>gene_i\<close> by one and changes no other field.
\<close>

theorem apply_gene_effect:
  assumes "length (gene_dir b) = 3" and "length (gene_strength b) = 3"
  shows "(gene_i b = 3 \<longrightarrow> apply_gene b = Inr b) \<and>
         (gene_i b < 3 \<longrightarrow>
            (\<exists>u. u = (cos (real_of_int (gene_dir b ! gene_i b) * pi / 180),
                       sin (real_of_int (gene_dir b ! gene_i b) * pi / 180)) \<and>
                 vlength u = 1 \<and>
                 apply_gene b =
                   Inr (b\<lparr>force := smul u (real_of_int (gene_strength b ! gene_i b)),
                          gene_i := gene_i b + 1\<rparr>)))"
  using assms vlength_unit[of "real_of_int (gene_dir b ! gene_i b)"]
  by (auto simp: apply_gene_def gene_force_def rotate_vec_def Let_def)

theorem apply_gene_effect_witness:
  "apply_gene (scenario_ball\<lparr>gene_i := 3\<rparr>) = Inr (scenario_ball\<lparr>gene_i := 3\<rparr>) \<and>
   apply_gene (scenario_ball\<lparr>gene_i := 1\<rparr>) = Inr (scenario_ball\<lparr>force := (65, 0), gene_i := 2\<rparr>)"
  using apply_gene_effect[of "scenario_ball\<lparr>gene_i := 3\<rparr>"]
    apply_gene_effect[of "scenario_ball\<lparr>gene_i := 1\<rparr>"]
  by (simp add: scenario_ball_def Basketball_init_def smul_def)


lemma vlength_zero: "vlength (0, 0) = 0"
  by (simp add: vlength_def)

section \<open>The physics step\<close>

text \<open>
  C10: \<open>update\<close> is not total. For a ball at height 3.2 and at least 5.3 to the right,
  the centre of the net coincides with the ball; when the predicted next position lies
  within the combined radius \<open>radius + 0.3\<close> of it, the net branch normalises the zero
  vector and the step raises \<open>ValueError\<close> instead of returning.
\<close>

theorem update_raises_at_net_centre:
  assumes "5.3 \<le> fst (position b)" and "snd (position b) = 3.2"
    and "net_dist (smul (velocity (integrate_acceleration dt b)) dt) b \<le> radius b + 0.3"
  shows "net_of b = position b \<and> update dt b = Inl ValueError"
proof -
  let ?b1 = "integrate_acceleration dt b"
  let ?fv = "smul (velocity ?b1) dt"
  let ?b2 = "resolve_walls ?fv ?b1"
  have n: "net_of b = position b"
    using assms(1,2) by (simp add: net_of_def max_def prod_eq_iff)
  have p: "position ?b2 = position b" "radius ?b2 = radius b"
    by (simp_all add: resolve_walls_def integrate_acceleration_def Let_def)
  have "net_of ?b2 = position ?b2"
    using n p by (simp add: net_of_def)
  then have z: "normalize_vec (vsub (net_of ?b2) (position ?b2)) = Inl ValueError"
    by (simp add: normalize_vec_def vsub_def vlength_zero)
  have "net_dist ?fv ?b2 = net_dist ?fv b"
    using p by (simp add: net_dist_def net_of_def)
  then have "resolve_net ?fv ?b2 = Inl ValueError"
    using assms(3) p z by (simp add: resolve_net_def Let_def)
  then show ?thesis using n by (simp add: update_def Let_def)
qed

theorem update_raises_at_net_centre_witness:
  "5.3 \<le> fst (position (Basketball_init (6, 3.2))) \<and>
   snd (position (Basketball_init (6, 3.2))) = 3.2 \<and>
   net_dist (smul (velocity (integrate_acceleration (1 / 60) (Basketball_init (6, 3.2)))) (1 / 60))
      (Basketball_init (6, 3.2)) \<le> radius (Basketball_init (6, 3.2)) + 0.3 \<and>
   update (1 / 60) (Basketball_init (6, 3.2)) = Inl ValueError"
proof -
  let ?b = "Basketball_init (6, 3.2)"
  have h1: "5.3 \<le> fst (position ?b)" and h2: "snd (position ?b) = 3.2"
    by (simp_all add: Basketball_init_def)
  have h3: "net_dist (smul (velocity (integrate_acceleration (1 / 60) ?b)) (1 / 60)) ?b
      \<le> radius ?b + 0.3"
    by (simp add: net_dist_def net_of_def Basketball_init_def integrate_acceleration_def
        vadd_def vsub_def smul_def GRAVITY_def vlength_axis_y)
  from update_raises_at_net_centre[OF h1 h2 h3] h1 h2 h3 show ?thesis by blast
qed

text \<open>
  C7: the wall branches of \<open>update\<close> change nothing but the velocity: its x component
  is multiplied by minus the elasticity when the predicted position, offset by the
  radius, leaves the interval from 0 to 7.2, and likewise its y component; the position
  is left alone and, when the step returns, is the old position plus the final velocity
  times dt. So a ball with no force and velocity (0, v), v > 0, whose predicted position
  crosses the floor and which stays clear of the net, ends the step with the vertical
  velocity -(v + GRAVITY * dt) * elasticity * (1 - AIR_FRICTION).
\<close>

theorem wall_bounce_changes_velocity_only:
  "resolve_walls fv b =
     b\<lparr>velocity := (if hits_wall_x fv b then fst (velocity b) * - elasticity b else fst (velocity b),
                     if hits_wall_y fv b then snd (velocity b) * - elasticity b else snd (velocity b))\<rparr> \<and>
   (hits_wall_x fv b \<longleftrightarrow>
      fst (position b) + fst fv - radius b < 0 \<or> 7.2 < fst (position b) + fst fv + radius b) \<and>
   (hits_wall_y fv b \<longleftrightarrow>
      snd (position b) + snd fv - radius b < 0 \<or> 7.2 < snd (position b) + snd fv + radius b) \<and>
   position (resolve_walls fv b) = position b \<and>
   (\<forall>b'. update dt b = Inr b' \<longrightarrow> position b' = vadd (position b) (smul (velocity b') dt)) \<and>
   (force b = (0, 0) \<and> velocity b = (0, v) \<and> 0 < v \<and>
    7.2 < snd (position b) + (v + GRAVITY * dt) * dt + radius b \<and>
    radius b + 0.3 < net_dist (0, (v + GRAVITY * dt) * dt) b \<longrightarrow>
      (\<exists>b'. update dt b = Inr b' \<and>
            snd (velocity b') = - (v + GRAVITY * dt) * elasticity b * (1 - AIR_FRICTION)))"
proof -
  have w: "resolve_walls fv b =
     b\<lparr>velocity := (if hits_wall_x fv b then fst (velocity b) * - elasticity b else fst (velocity b),
                     if hits_wall_y fv b then snd (velocity b) * - elasticity b else snd (velocity b))\<rparr>"
    by (simp add: resolve_walls_def hits_wall_y_def Let_def)
  have hx: "hits_wall_x fv b \<longleftrightarrow>
      fst (position b) + fst fv - radius b < 0 \<or> 7.2 < fst (position b) + fst fv + radius b"
    by (simp add: hits_wall_x_def WINDOW_WIDTH_def UNIT_def)
  have hy: "hits_wall_y fv b \<longleftrightarrow>
      snd (position b) + snd fv - radius b < 0 \<or> 7.2 < snd (position b) + snd fv + radius b"
    by (simp add: hits_wall_y_def WINDOW_HEIGHT_def UNIT_def)
  have pw: "position (resolve_walls fv b) = position b"
    by (simp add: w)
  have pos: "\<forall>b'. update dt b = Inr b' \<longrightarrow> position b' = vadd (position b) (smul (velocity b') dt)"
    by (auto simp: update_def resolve_net_def integrate_velocity_def resolve_walls_def
        integrate_acceleration_def Let_def split: sum.splits if_splits)
  have floor: "\<exists>b'. update dt b = Inr b' \<and>
            snd (velocity b') = - (v + GRAVITY * dt) * elasticity b * (1 - AIR_FRICTION)"
    if h: "force b = (0, 0)" "velocity b = (0, v)" "0 < v"
      "7.2 < snd (position b) + (v + GRAVITY * dt) * dt + radius b"
      "radius b + 0.3 < net_dist (0, (v + GRAVITY * dt) * dt) b"
  proof -
    have fv: "smul (velocity (integrate_acceleration dt b)) dt = (0, (v + GRAVITY * dt) * dt)"
      using h(1,2) by (simp add: integrate_acceleration_def smul_def vadd_def)
    have "update dt b = Inr (integrate_velocity dt
          (resolve_walls (smul (velocity (integrate_acceleration dt b)) dt)
             (integrate_acceleration dt b)))"
      using h(5) by (intro update_clear) (simp add: fv)
    moreover have "snd (velocity (integrate_velocity dt
          (resolve_walls (smul (velocity (integrate_acceleration dt b)) dt)
             (integrate_acceleration dt b)))) = - (v + GRAVITY * dt) * elasticity b * (1 - AIR_FRICTION)"
      unfolding fv using h(1,2,4)
      by (simp add: integrate_velocity_def resolve_walls_def hits_wall_y_def hits_wall_x_def
          integrate_acceleration_def smul_def vadd_def Let_def WINDOW_HEIGHT_def UNIT_def)
         (simp add: algebra_simps)
    ultimately show ?thesis by blast
  qed
  from w hx hy pw pos floor show ?thesis by blast
qed


theorem wall_bounce_changes_velocity_only_witness:
  "force dropped_ball = (0, 0) \<and> velocity dropped_ball = (0, 1) \<and> (0::real) < 1 \<and>
   7.2 < snd (position dropped_ball) + (1 + GRAVITY * (1 / 60)) * (1 / 60) + radius dropped_ball \<and>
   radius dropped_ball + 0.3 < net_dist (0, (1 + GRAVITY * (1 / 60)) * (1 / 60)) dropped_ball \<and>
   (\<exists>b'. update (1 / 60) dropped_ball = Inr b' \<and>
         position b' = vadd (position dropped_ball) (smul (velocity b') (1 / 60)) \<and>
         snd (velocity b') = - (1 + GRAVITY * (1 / 60)) * elasticity dropped_ball * (1 - AIR_FRICTION))"
proof -
  have h: "force dropped_ball = (0, 0)" "velocity dropped_ball = (0, 1)" "(0::real) < 1"
    "7.2 < snd (position dropped_ball) + (1 + GRAVITY * (1 / 60)) * (1 / 60) + radius dropped_ball"
    by (simp_all add: dropped_ball_def Basketball_init_def GRAVITY_def)
  have n: "radius dropped_ball + 0.3 < net_dist (0, (1 + GRAVITY * (1 / 60)) * (1 / 60)) dropped_ball"
    using net_dist_ge_x[of dropped_ball "(0, (1 + GRAVITY * (1 / 60)) * (1 / 60))"]
    by (simp add: dropped_ball_def Basketball_init_def)
  from wall_bounce_changes_velocity_only[of "(0, 0)" dropped_ball "1 / 60" 1] h n
  show ?thesis by blast
qed


section \<open>Facts about the random source\<close>

lemma rdrop_rdrop: "rdrop a (rdrop b r) = rdrop (a + b) r"
  by (simp add: rdrop_def add.assoc)

lemma rdrop_0: "rdrop 0 r = r"
  by (simp add: rdrop_def)

lemma rdrop_apply: "rdrop k r n = r (n + k)"
  by (simp add: rdrop_def)

lemma int_of_draw_dir: "0 \<le> int_of_draw 0 359 x \<and> int_of_draw 0 359 x \<le> 359"
proof -
  have "x mod 360 < 360" by simp
  then show ?thesis unfolding int_of_draw_def by simp
qed

lemma int_of_draw_strength: "65 \<le> int_of_draw 65 2300 x \<and> int_of_draw 65 2300 x \<le> 2300"
proof -
  have "x mod 2236 < 2236" by simp
  then show ?thesis unfolding int_of_draw_def by simp
qed

lemma unit_of_draw_range: "0 \<le> unit_of_draw x \<and> unit_of_draw x < 1"
proof -
  have "x mod 2 ^ 53 < 2 ^ 53" by simp
  then have "real (x mod 2 ^ 53) < 2 ^ 53"
    by (metis of_nat_less_iff of_nat_numeral of_nat_power)
  then show ?thesis by (simp add: unit_of_draw_def)
qed

lemma random_eq: "random r = (unit_of_draw (r 0), rdrop 1 r)"
  by (simp add: random_def)

lemma no_mutation: "\<not> fst (random r) < MUTATION_CHANCE"
  using unit_of_draw_range[of "r 0"] by (simp add: random_def MUTATION_CHANCE_def)

section \<open>Construction\<close>

lemma create_genes_eq:
  "create_genes b r =
     (b\<lparr>gene_i := 0, gene_dir := fresh_dirs r, gene_strength := fresh_strengths r\<rparr>, rdrop 6 r)"
  by (simp add: create_genes_def eval_nat_numeral randint_def fresh_dirs_def fresh_strengths_def
      rdrop_def)

lemma create_genes_all_eq:
  "create_genes_all bs r =
     (map (\<lambda>j. (bs ! j)\<lparr>gene_i := 0, gene_dir := fresh_dirs (rdrop (6 * j) r),
                         gene_strength := fresh_strengths (rdrop (6 * j) r)\<rparr>) [0..<length bs],
      rdrop (6 * length bs) r)"
proof (induction bs arbitrary: r)
  case Nil
  then show ?case by (simp add: rdrop_0)
next
  case (Cons b bs)
  have "[0..<length (b # bs)] = 0 # map Suc [0..<length bs]"
    by (simp add: upt_conv_Cons map_Suc_upt del: upt_Suc)
  then show ?case
    by (simp add: create_genes_eq Cons.IH rdrop_rdrop rdrop_0 o_def add.commute del: upt_Suc)
qed

lemma all2_for_each:
  "list_all2 (\<lambda>b b'. f b = Inr b') bs bs' \<longleftrightarrow> for_each f bs = Inr bs'"
proof (induction bs arbitrary: bs')
  case Nil
  then show ?case by auto
next
  case (Cons b bs)
  then show ?case by (cases bs') (auto split: sum.splits)
qed

lemma for_each_all2:
  "for_each f bs = Inr bs' \<Longrightarrow> list_all2 (\<lambda>b b'. f b = Inr b') bs bs'"
  by (simp add: all2_for_each)

lemma for_each_map:
  assumes "\<And>b. b \<in> set bs \<Longrightarrow> f b = Inr (h b)"
  shows "for_each f bs = Inr (map h bs)"
  using assms by (induction bs) auto

lemma fresh_lengths: "length (fresh_dirs r) = 3" "length (fresh_strengths r) = 3"
  by (simp_all add: fresh_dirs_def fresh_strengths_def)

lemma Generation_init_eq:
  "Generation_init n r =
     Inr (\<lparr>population = map (\<lambda>j. launched_ball (rdrop (6 * j) r)) [0..<n], last_gene = 0\<rparr>,
          rdrop (6 * n) r)"
proof -
  let ?bs = "map (\<lambda>j. (Basketball_init (50 / UNIT, 650 / UNIT))\<lparr>gene_i := 0, gene_dir := fresh_dirs (rdrop (6 * j) r),
                         gene_strength := fresh_strengths (rdrop (6 * j) r)\<rparr>) [0..<n]"
  have c: "create_genes_all (replicate n (Basketball_init (50 / UNIT, 650 / UNIT))) r = (?bs, rdrop (6 * n) r)"
    by (simp add: create_genes_all_eq)
  have "for_each apply_gene ?bs = Inr (map (\<lambda>b. b\<lparr>force := gene_force (gene_dir b ! 0) (gene_strength b ! 0), gene_i := 1\<rparr>) ?bs)"
    by (rule for_each_map) (auto simp: apply_gene_def fresh_lengths)
  then show ?thesis
    by (simp add: Generation_init_def c launched_ball_def o_def)
qed


section \<open>Invariants\<close>

lemma fresh_genes_in_range:
  "(\<forall>d \<in> set (fresh_dirs r). 0 \<le> d \<and> d \<le> 359) \<and>
   (\<forall>s \<in> set (fresh_strengths r). 65 \<le> s \<and> s \<le> 2300)"
  using int_of_draw_dir int_of_draw_strength
  by (simp add: fresh_dirs_def fresh_strengths_def randint_def)

lemma launched_ball_ok: "genes_ok (launched_ball r) \<and> gene_i (launched_ball r) = 1"
  using fresh_genes_in_range[of r] by (simp add: genes_ok_def launched_ball_def fresh_lengths)

lemma Generation_init_lockstep:
  assumes "Generation_init n r = Inr (g, r')"
  shows "lockstep g 1"
  using assms launched_ball_ok by (auto simp: Generation_init_eq lockstep_def)

lemma update_keeps_genes:
  assumes "update dt b = Inr b'"
  shows "gene_i b' = gene_i b \<and> gene_dir b' = gene_dir b \<and> gene_strength b' = gene_strength b"
  using assms
  by (auto simp: update_def resolve_net_def integrate_velocity_def resolve_walls_def
      integrate_acceleration_def Let_def split: sum.splits if_splits)

lemma apply_gene_ok:
  assumes "genes_ok b" and "gene_i b < 3"
  shows "apply_gene b =
    Inr (b\<lparr>force := gene_force (gene_dir b ! gene_i b) (gene_strength b ! gene_i b),
           gene_i := gene_i b + 1\<rparr>)"
  using assms by (simp add: apply_gene_def genes_ok_def)

lemma for_each_length: "for_each f bs = Inr bs' \<Longrightarrow> length bs' = length bs"
  by (drule for_each_all2) (simp add: list_all2_lengthD)

lemma for_each_set:
  assumes "for_each f bs = Inr bs'" and "b' \<in> set bs'"
  shows "\<exists>b \<in> set bs. f b = Inr b'"
proof -
  from assms(1) have a: "list_all2 (\<lambda>b b'. f b = Inr b') bs bs'" by (rule for_each_all2)
  from assms(2) obtain j where "j < length bs'" "bs' ! j = b'"
    by (auto simp: in_set_conv_nth)
  with a have "f (bs ! j) = Inr b'" "j < length bs"
    by (auto simp: list_all2_conv_all_nth)
  then show ?thesis by (metis nth_mem)
qed

lemma timer_overflow: "(real (t + 1) > real FPS * SHOT_DURATION) \<longleftrightarrow> 420 \<le> t"
proof -
  have "real FPS * SHOT_DURATION = real 420" by (simp add: FPS_def SHOT_DURATION_def)
  then have "(real (t + 1) > real FPS * SHOT_DURATION) \<longleftrightarrow> real 420 < real (t + 1)" by simp
  also have "\<dots> \<longleftrightarrow> 420 < t + 1" by (rule of_nat_less_iff)
  finally show ?thesis by auto
qed

lemma Generation_update_alt:
  "Generation_update dt g =
     (if 420 \<le> last_gene g
      then (case population g of
              [] \<Rightarrow> Inl IndexError
            | b0 # _ \<Rightarrow>
                if gene_i b0 = 3 then Inr (True, g\<lparr>last_gene := 0\<rparr>)
                else (case for_each apply_gene (population g) of
                        Inl e \<Rightarrow> Inl e
                      | Inr balls1 \<Rightarrow>
                          (case for_each (update dt) balls1 of
                             Inl e \<Rightarrow> Inl e
                           | Inr balls2 \<Rightarrow>
                               Inr (False, g\<lparr>population := balls2, last_gene := 0\<rparr>))))
      else (case for_each (update dt) (population g) of
              Inl e \<Rightarrow> Inl e
            | Inr balls2 \<Rightarrow>
                Inr (False, g\<lparr>population := balls2, last_gene := last_gene g + 1\<rparr>)))"
  by (simp only: Generation_update_def Let_def timer_overflow)

lemma physics_lockstep:
  assumes "for_each (update dt) bs = Inr bs'"
    and "\<forall>b \<in> set bs. gene_i b = k \<and> genes_ok b"
  shows "\<forall>b \<in> set bs'. gene_i b = k \<and> genes_ok b"
proof
  fix b' assume "b' \<in> set bs'"
  with assms(1) obtain b where "b \<in> set bs" "update dt b = Inr b'"
    using for_each_set by blast
  with assms(2) update_keeps_genes[of dt b b'] show "gene_i b' = k \<and> genes_ok b'"
    by (simp add: genes_ok_def)
qed

lemma apply_all_lockstep:
  assumes "\<forall>b \<in> set bs. gene_i b = k \<and> genes_ok b" and "k < 3"
  shows "\<exists>bs'. for_each apply_gene bs = Inr bs' \<and> (\<forall>b \<in> set bs'. gene_i b = k + 1 \<and> genes_ok b)"
proof -
  let ?h = "\<lambda>b. b\<lparr>force := gene_force (gene_dir b ! gene_i b) (gene_strength b ! gene_i b),
           gene_i := gene_i b + 1\<rparr>"
  have "for_each apply_gene bs = Inr (map ?h bs)"
    using assms by (intro for_each_map) (simp add: apply_gene_ok)
  moreover have "\<forall>b \<in> set (map ?h bs). gene_i b = k + 1 \<and> genes_ok b"
    using assms(1) by (auto simp: genes_ok_def)
  ultimately show ?thesis by blast
qed

text \<open>One call of \<open>Generation.update\<close>, by the timer and the common gene index.\<close>

lemma Generation_update_cases:
  assumes "lockstep g k" and "population g \<noteq> []" and "Generation_update dt g = Inr (d, g')"
  shows "length (population g') = length (population g) \<and>
         (if last_gene g < 420 then \<not> d \<and> last_gene g' = last_gene g + 1 \<and> lockstep g' k
          else if k = 3 then d \<and> g' = g\<lparr>last_gene := 0\<rparr>
          else \<not> d \<and> last_gene g' = 0 \<and> lockstep g' (k + 1))"
proof (cases "last_gene g < 420")
  case True
  then have t: "\<not> 420 \<le> last_gene g" by simp
  from assms(3) t obtain bs where
    bs: "for_each (update dt) (population g) = Inr bs"
    and g': "g' = g\<lparr>population := bs, last_gene := last_gene g + 1\<rparr>" and d: "\<not> d"
    by (auto simp: Generation_update_alt split: sum.splits)
  from bs assms(1) have "\<forall>b \<in> set bs. gene_i b = k \<and> genes_ok b"
    by (intro physics_lockstep[OF bs]) (simp add: lockstep_def)
  with assms(1) g' have "lockstep g' k" by (simp add: lockstep_def)
  with True d g' for_each_length[OF bs] show ?thesis by simp
next
  case False
  then have t: "420 \<le> last_gene g" by simp
  from assms(2) obtain b0 rest where p: "population g = b0 # rest" by (cases "population g") auto
  with assms(1) have k: "gene_i b0 = k" by (simp add: lockstep_def)
  show ?thesis
  proof (cases "k = 3")
    case True
    with assms(3) t p k False show ?thesis
      by (auto simp: Generation_update_alt)
  next
    case k3: False
    with assms(1) have "k < 3" by (simp add: lockstep_def)
    with assms(1) obtain bs1 where
      bs1: "for_each apply_gene (population g) = Inr bs1"
      and l1: "\<forall>b \<in> set bs1. gene_i b = k + 1 \<and> genes_ok b"
      using apply_all_lockstep[of "population g" k] by (auto simp: lockstep_def)
    from assms(3) t p k k3 bs1 obtain bs2 where
      bs2: "for_each (update dt) bs1 = Inr bs2"
      and g': "g' = g\<lparr>population := bs2, last_gene := 0\<rparr>" and d: "\<not> d"
      by (auto simp: Generation_update_alt split: sum.splits)
    from physics_lockstep[OF bs2 l1] \<open>k < 3\<close> g' have "lockstep g' (k + 1)"
      by (simp add: lockstep_def)
    with False k3 d g' for_each_length[OF bs2] for_each_length[OF bs1] show ?thesis by simp
  qed
qed

lemma Generation_update_lockstep:
  assumes "lockstep g k" and "Generation_update dt g = Inr (d, g')"
  shows "\<exists>k'. lockstep g' k'"
proof (cases "population g = []")
  case True
  with assms(2) have "population g' = []"
    by (auto simp: Generation_update_alt split: if_splits)
  then have "lockstep g' 0" by (simp add: lockstep_def)
  then show ?thesis ..
next
  case False
  have "lockstep (g\<lparr>last_gene := 0\<rparr>) k"
    using assms(1) by (simp add: lockstep_def)
  with Generation_update_cases[OF assms(1) False assms(2)] show ?thesis
    by (auto split: if_splits)
qed


section \<open>The next generation\<close>

lemma winner_member:
  assumes "winner g = Inr (Some b)"
  shows "b \<in> set (population g)"
  using assms
  by (auto simp: winner_def find_Some_iff split: sum.splits)

lemma inherit_gene_in_range:
  assumes "inherit_gene w i r = Inr ((d, s), r')" and "\<And>b. w = Some b \<Longrightarrow> genes_ok b"
  shows "0 \<le> d \<and> d \<le> 359 \<and> 65 \<le> s \<and> s \<le> 2300"
proof (cases w)
  case None
  with assms(1) show ?thesis
    using int_of_draw_dir int_of_draw_strength
    by (auto simp: inherit_gene_def random_def randint_def winner_dir_def winner_strength_def
        Let_def split: if_splits sum.splits)
next
  case (Some b)
  with assms(2) have ok: "genes_ok b" by simp
  have "i < length (gene_dir b) \<Longrightarrow> 0 \<le> gene_dir b ! i \<and> gene_dir b ! i \<le> 359"
    and "i < length (gene_strength b) \<Longrightarrow> 65 \<le> gene_strength b ! i \<and> gene_strength b ! i \<le> 2300"
    using ok by (auto simp: genes_ok_def)
  with assms(1) Some show ?thesis
    using int_of_draw_dir int_of_draw_strength
    by (auto simp: inherit_gene_def random_def randint_def winner_dir_def winner_strength_def
        Let_def split: if_splits sum.splits)
qed

lemma inherit_loop_in_range:
  assumes "inherit_loop w ixs gd gs r = Inr (gd', gs', r')"
    and "\<And>b. w = Some b \<Longrightarrow> genes_ok b"
    and "\<forall>d \<in> set gd. 0 \<le> d \<and> d \<le> 359" and "\<forall>s \<in> set gs. 65 \<le> s \<and> s \<le> 2300"
  shows "length gd' = length gd + length ixs \<and> length gs' = length gs + length ixs \<and>
         (\<forall>d \<in> set gd'. 0 \<le> d \<and> d \<le> 359) \<and> (\<forall>s \<in> set gs'. 65 \<le> s \<and> s \<le> 2300)"
  using assms
proof (induction ixs arbitrary: gd gs r)
  case Nil
  then show ?case by simp
next
  case (Cons i ixs)
  from Cons.prems(1) obtain d s r1 where
    g: "inherit_gene w i r = Inr ((d, s), r1)"
    and l: "inherit_loop w ixs (gd @ [d]) (gs @ [s]) r1 = Inr (gd', gs', r')"
    by (auto split: sum.splits)
  from inherit_gene_in_range[OF g Cons.prems(2)]
  have "0 \<le> d \<and> d \<le> 359 \<and> 65 \<le> s \<and> s \<le> 2300" by simp
  with Cons.prems(3,4) have
    "\<forall>d \<in> set (gd @ [d]). 0 \<le> d \<and> d \<le> 359" "\<forall>s \<in> set (gs @ [s]). 65 \<le> s \<and> s \<le> 2300"
    by auto
  from Cons.IH[OF l Cons.prems(2) this] show ?case by simp
qed

lemma overwrite_genes_ok:
  assumes "overwrite_genes w bs r = Inr (bs', r')" and "\<And>b. w = Some b \<Longrightarrow> genes_ok b"
  shows "list_all2 (\<lambda>b b'. gene_i b' = gene_i b \<and> force b' = force b \<and> genes_ok b') bs bs'"
  using assms
proof (induction bs arbitrary: bs' r r')
  case Nil
  then show ?case by simp
next
  case (Cons b bs)
  from Cons.prems(1) obtain gd gs r1 rest r2 where
    l: "inherit_loop w [0, 1, 2] [] [] r = Inr (gd, gs, r1)"
    and o: "overwrite_genes w bs r1 = Inr (rest, r2)"
    and b': "bs' = b\<lparr>gene_dir := gd, gene_strength := gs\<rparr> # rest"
    by (auto split: sum.splits)
  from inherit_loop_in_range[OF l Cons.prems(2)]
  have "genes_ok (b\<lparr>gene_dir := gd, gene_strength := gs\<rparr>)"
    by (simp add: genes_ok_def)
  with Cons.IH[OF o Cons.prems(2)] b' show ?case by simp
qed

lemma next_generation_lockstep:
  assumes "lockstep (generation s) k" and "next_generation s r = Inr (s', r')"
  shows "lockstep (generation s') 1"
proof -
  from assms(2) obtain w g r1 balls where
    w: "winner (generation s) = Inr w"
    and g: "Generation_init (solver_population s) r = Inr (g, r1)"
    and o: "overwrite_genes w (population g) r1 = Inr (balls, r')"
    and s': "generation s' = g\<lparr>population := balls\<rparr>"
    by (auto simp: next_generation_def split: sum.splits)
  have wok: "\<And>b. w = Some b \<Longrightarrow> genes_ok b"
    using w winner_member[of "generation s"] assms(1) by (auto simp: lockstep_def)
  from Generation_init_lockstep[OF g] have g1: "\<forall>b \<in> set (population g). gene_i b = 1"
    by (simp add: lockstep_def)
  have "\<forall>b' \<in> set balls. gene_i b' = 1 \<and> genes_ok b'"
  proof
    fix b' assume "b' \<in> set balls"
    then obtain j where j: "j < length balls" "balls ! j = b'" by (auto simp: in_set_conv_nth)
    from overwrite_genes_ok[OF o wok] j
    have "gene_i b' = gene_i (population g ! j) \<and> genes_ok b'" "j < length (population g)"
      by (auto simp: list_all2_conv_all_nth)
    with g1 show "gene_i b' = 1 \<and> genes_ok b'" by simp
  qed
  with s' show ?thesis by (simp add: lockstep_def)
qed

lemma Solver_update_lockstep:
  assumes "lockstep (generation s) k" and "Solver_update dt s r = Inr (s', r')"
  shows "\<exists>k'. lockstep (generation s') k'"
proof -
  from assms(2) obtain d g where u: "Generation_update dt (generation s) = Inr (d, g)"
    by (auto simp: Solver_update_def split: sum.splits)
  from Generation_update_lockstep[OF assms(1) u] obtain k1 where k1: "lockstep g k1" ..
  show ?thesis
  proof (cases d)
    case True
    with assms(2) u have "next_generation (s\<lparr>generation := g\<rparr>) r = Inr (s', r')"
      by (auto simp: Solver_update_def split: sum.splits)
    with k1 next_generation_lockstep[of "s\<lparr>generation := g\<rparr>" k1 r s' r'] show ?thesis by auto
  next
    case False
    with assms(2) u have "generation s' = g" by (auto simp: Solver_update_def)
    with k1 show ?thesis by auto
  qed
qed

lemma reachable_lockstep: "reachable g \<Longrightarrow> \<exists>k. lockstep g k"
proof (induction rule: reachable.induct)
  case (construct n r g r')
  then show ?case using Generation_init_lockstep by blast
next
  case (solver_construct n r s r')
  then obtain g where "Generation_init n r = Inr (g, r')" "generation s = g"
    by (auto simp: Solver_init_def split: sum.splits)
  then show ?case using Generation_init_lockstep by blast
next
  case (generation_update g dt d g')
  then show ?case using Generation_update_lockstep by blast
next
  case (solver_update s dt r s' r')
  then show ?case using Solver_update_lockstep by blast
next
  case (solver_next s r s' r')
  then show ?case using next_generation_lockstep by blast
qed

lemma rdrop_const: "rdrop k (\<lambda>_. c) = (\<lambda>_. c)"
  by (simp add: rdrop_def)

lemma sample_generation_init:
  "Generation_init 2 (\<lambda>_. 0) = Inr (sample_generation, \<lambda>_. 0)"
proof -
  have "[0..<2::nat] = [0, 1]" by (simp add: numeral_2_eq_2)
  then show ?thesis
    by (simp add: Generation_init_eq rdrop_const sample_generation_def)
qed

lemma launched_ball_zero:
  "gene_dir (launched_ball (\<lambda>_. 0)) = [0, 0, 0] \<and>
   gene_strength (launched_ball (\<lambda>_. 0)) = [65, 65, 65] \<and>
   gene_i (launched_ball (\<lambda>_. 0)) = 1"
  by (simp add: launched_ball_def fresh_dirs_def fresh_strengths_def randint_def int_of_draw_def
      rdrop_const)

section \<open>Invariants of the reachable generations\<close>

text \<open>
  C6: in every generation that the constructors, \<open>Generation.update\<close>, \<open>Solver.update\<close>
  and \<open>Solver.next_generation\<close> can produce, all balls have the same \<open>gene_i\<close>, and that
  index is at most 3 (it is a natural number, so at least 0).
\<close>

theorem lockstep_invariant:
  assumes "reachable g"
  shows "\<exists>k. k \<le> 3 \<and> (\<forall>b \<in> set (population g). gene_i b = k)"
  using reachable_lockstep[OF assms] by (auto simp: lockstep_def)

theorem lockstep_invariant_witness:
  "reachable sample_generation \<and>
   (\<exists>k. k \<le> 3 \<and> (\<forall>b \<in> set (population sample_generation). gene_i b = k))"
proof -
  have r: "reachable sample_generation"
    using sample_generation_init by (rule reachable.construct)
  from lockstep_invariant[OF r] r show ?thesis by blast
qed

text \<open>
  C9: the genes \<open>create_genes\<close> draws are three directions between 0 and 359 and three
  strengths between 65 and 2300, and every ball of every reachable generation, so also
  one whose genes \<open>next_generation\<close> has written, holds exactly three directions and
  three strengths within those ranges.
\<close>

theorem gene_bounds_invariant:
  "(\<forall>d \<in> set (gene_dir (fst (create_genes b r))). 0 \<le> d \<and> d \<le> 359) \<and>
   (\<forall>s \<in> set (gene_strength (fst (create_genes b r))). 65 \<le> s \<and> s \<le> 2300) \<and>
   length (gene_dir (fst (create_genes b r))) = 3 \<and>
   length (gene_strength (fst (create_genes b r))) = 3 \<and>
   (reachable g \<longrightarrow>
     (\<forall>a \<in> set (population g).
        length (gene_dir a) = 3 \<and> length (gene_strength a) = 3 \<and>
        (\<forall>d \<in> set (gene_dir a). 0 \<le> d \<and> d \<le> 359) \<and>
        (\<forall>s \<in> set (gene_strength a). 65 \<le> s \<and> s \<le> 2300)))"
proof -
  have "reachable g \<longrightarrow> (\<forall>a \<in> set (population g). genes_ok a)"
    using reachable_lockstep[of g] by (auto simp: lockstep_def)
  then show ?thesis
    using fresh_genes_in_range[of r]
    by (simp add: create_genes_eq fresh_lengths genes_ok_def)
qed

theorem gene_bounds_invariant_witness:
  "reachable sample_generation \<and>
   map gene_dir (population sample_generation) = [[0, 0, 0], [0, 0, 0]] \<and>
   map gene_strength (population sample_generation) = [[65, 65, 65], [65, 65, 65]] \<and>
   list_all (\<lambda>a. length (gene_dir a) = 3 \<and> length (gene_strength a) = 3 \<and>
                  list_all (\<lambda>d. 0 \<le> d \<and> d \<le> 359) (gene_dir a) \<and>
                  list_all (\<lambda>s. 65 \<le> s \<and> s \<le> 2300) (gene_strength a))
     (population sample_generation)"
proof -
  have r: "reachable sample_generation"
    using sample_generation_init by (rule reachable.construct)
  from gene_bounds_invariant[of "launched_ball (\<lambda>_. 0)" "\<lambda>_. 0" sample_generation] r
  have "\<forall>a \<in> set (population sample_generation).
        length (gene_dir a) = 3 \<and> length (gene_strength a) = 3 \<and>
        (\<forall>d \<in> set (gene_dir a). 0 \<le> d \<and> d \<le> 359) \<and>
        (\<forall>s \<in> set (gene_strength a). 65 \<le> s \<and> s \<le> 2300)"
    by blast
  then have "list_all (\<lambda>a. length (gene_dir a) = 3 \<and> length (gene_strength a) = 3 \<and>
                  list_all (\<lambda>d. 0 \<le> d \<and> d \<le> 359) (gene_dir a) \<and>
                  list_all (\<lambda>s. 65 \<le> s \<and> s \<le> 2300) (gene_strength a))
     (population sample_generation)"
    by (simp add: list_all_iff)
  moreover have "map gene_dir (population sample_generation) = [[0, 0, 0], [0, 0, 0]]"
    "map gene_strength (population sample_generation) = [[65, 65, 65], [65, 65, 65]]"
    by (simp_all add: sample_generation_def launched_ball_zero)
  ultimately show ?thesis using r by blast
qed

section \<open>Completion timing\<close>

lemma run_before_done:
  assumes "lockstep g k" and "population g \<noteq> []" and "last_gene g \<le> 420"
    and "run g dts = Inr (ds, g')"
    and "length dts \<le> (3 - k) * 421 + (420 - last_gene g)"
  shows "ds = replicate (length dts) False \<and> population g' \<noteq> [] \<and> last_gene g' \<le> 420 \<and>
         (\<exists>k'. lockstep g' k' \<and>
            (3 - k') * 421 + (420 - last_gene g')
              = (3 - k) * 421 + (420 - last_gene g) - length dts)"
  using assms
proof (induction dts arbitrary: g k ds)
  case Nil
  then show ?case by auto
next
  case (Cons dt dts)
  from Cons.prems(4) obtain d g1 ds1 where
    u: "Generation_update dt g = Inr (d, g1)"
    and r: "run g1 dts = Inr (ds1, g')" and ds: "ds = d # ds1"
    by (auto split: sum.splits)
  note c = Generation_update_cases[OF Cons.prems(1,2) u]
  from c Cons.prems(2) have ne: "population g1 \<noteq> []" by auto
  from Cons.prems(1) have k3: "k \<le> 3" by (simp add: lockstep_def)
  show ?case
  proof (cases "last_gene g < 420")
    case True
    with c have d: "\<not> d" and t: "last_gene g1 = last_gene g + 1" and l: "lockstep g1 k"
      by simp_all
    from True t Cons.prems(5) have
      "last_gene g1 \<le> 420" "length dts \<le> (3 - k) * 421 + (420 - last_gene g1)"
      by simp_all
    from Cons.IH[OF l ne this(1) r this(2)] d ds t True show ?thesis by auto
  next
    case False
    with Cons.prems(3) have e: "last_gene g = 420" by simp
    with Cons.prems(5) k3 have "k \<noteq> 3" by auto
    with c False have d: "\<not> d" and t: "last_gene g1 = 0" and l: "lockstep g1 (k + 1)"
      by simp_all
    from \<open>k \<noteq> 3\<close> k3 have "k < 3" by simp
    with e t Cons.prems(5) have
      "last_gene g1 \<le> 420" "length dts \<le> (3 - (k + 1)) * 421 + (420 - last_gene g1)"
      by simp_all
    from Cons.IH[OF l ne this(1) r this(2)] d ds t e \<open>k < 3\<close> show ?thesis by auto
  qed
qed

section \<open>Steps of length zero\<close>

lemma update_parked:
  assumes "parked b"
  shows "update 0 b = Inr (b\<lparr>force := (0, 0)\<rparr>)"
proof -
  have p: "position b = (1 / 2, 13 / 2)" "velocity b = (0, 0)" "radius b = 121 / 250"
    using assms by (simp_all add: parked_def UNIT_def)
  have "radius b + 0.3 < net_dist (smul (velocity (integrate_acceleration 0 b)) 0) b"
    using net_dist_ge_x[of b "smul (velocity (integrate_acceleration 0 b)) 0"] p
    by (simp add: step_defs)
  then have "update 0 b = Inr (integrate_velocity 0
          (resolve_walls (smul (velocity (integrate_acceleration 0 b)) 0)
             (integrate_acceleration 0 b)))"
    by (rule update_clear)
  also have "integrate_velocity 0
          (resolve_walls (smul (velocity (integrate_acceleration 0 b)) 0)
             (integrate_acceleration 0 b)) = b\<lparr>force := (0, 0)\<rparr>"
    using p by (simp add: step_defs Let_def)
  finally show ?thesis .
qed

lemma parked_generation_step:
  assumes "parked_generation g"
  shows "\<exists>d g'. Generation_update 0 g = Inr (d, g') \<and> parked_generation g'"
proof -
  from assms obtain k where ne: "population g \<noteq> []" and k: "k \<le> 3"
    and a: "\<forall>b \<in> set (population g). parked b \<and> gene_i b = k"
    by (auto simp: parked_generation_def)
  let ?rest = "\<lambda>b. b\<lparr>force := (0, 0)\<rparr>"
  let ?gene = "\<lambda>b. b\<lparr>force := gene_force (gene_dir b ! gene_i b) (gene_strength b ! gene_i b),
           gene_i := gene_i b + 1\<rparr>"
  have rest: "\<And>bs. \<forall>b \<in> set bs. parked b \<Longrightarrow> for_each (update 0) bs = Inr (map ?rest bs)"
    by (rule for_each_map) (simp add: update_parked)
  from ne obtain b0 tl where p: "population g = b0 # tl" by (cases "population g") auto
  with a have b0: "gene_i b0 = k" by simp
  show ?thesis
  proof (cases "420 \<le> last_gene g")
    case False
    from a have "for_each (update 0) (population g) = Inr (map ?rest (population g))"
      by (intro rest) simp
    with False have "Generation_update 0 g
        = Inr (False, g\<lparr>population := map ?rest (population g), last_gene := last_gene g + 1\<rparr>)"
      by (simp add: Generation_update_alt)
    moreover have "parked_generation
        (g\<lparr>population := map ?rest (population g), last_gene := last_gene g + 1\<rparr>)"
      using ne k a by (auto simp: parked_generation_def parked_def)
    ultimately show ?thesis by blast
  next
    case True
    show ?thesis
    proof (cases "k = 3")
      case k3: True
      with True p b0 have "Generation_update 0 g = Inr (True, g\<lparr>last_gene := 0\<rparr>)"
        by (simp add: Generation_update_alt)
      moreover have "parked_generation (g\<lparr>last_gene := 0\<rparr>)"
        using assms by (simp add: parked_generation_def)
      ultimately show ?thesis by blast
    next
      case False
      with k have kl: "k < 3" by simp
      have g1: "for_each apply_gene (population g) = Inr (map ?gene (population g))"
        using a kl by (intro for_each_map) (simp add: apply_gene_def parked_def)
      have pg: "\<forall>b \<in> set (map ?gene (population g)). parked b \<and> gene_i b = k + 1"
        using a by (auto simp: parked_def)
      then have "\<forall>b \<in> set (map ?gene (population g)). parked b" by blast
      then have g2: "for_each (update 0) (map ?gene (population g))
          = Inr (map ?rest (map ?gene (population g)))"
        by (rule rest)
      from True p b0 False g1 g2 have "Generation_update 0 g
          = Inr (False, g\<lparr>population := map ?rest (map ?gene (population g)), last_gene := 0\<rparr>)"
        by (simp add: Generation_update_alt)
      moreover have "parked_generation
          (g\<lparr>population := map ?rest (map ?gene (population g)), last_gene := 0\<rparr>)"
        unfolding parked_generation_def
      proof (intro conjI exI[of _ "k + 1"])
        show "population (g\<lparr>population := map ?rest (map ?gene (population g)), last_gene := 0\<rparr>) \<noteq> []"
          using ne by simp
        show "k + 1 \<le> 3" using kl by simp
        show "\<forall>b \<in> set (population
            (g\<lparr>population := map ?rest (map ?gene (population g)), last_gene := 0\<rparr>)).
            parked b \<and> gene_i b = k + 1"
          using pg by (auto simp: parked_def)
      qed
      ultimately show ?thesis by blast
    qed
  qed
qed

lemma parked_generation_run:
  assumes "parked_generation g"
  shows "\<exists>ds g'. run g (replicate m 0) = Inr (ds, g')"
  using assms
proof (induction m arbitrary: g)
  case 0
  then show ?case by simp
next
  case (Suc m)
  from parked_generation_step[OF Suc.prems] obtain d g1 where
    u: "Generation_update 0 g = Inr (d, g1)" and p: "parked_generation g1" by blast
  from Suc.IH[OF p] obtain ds g' where "run g1 (replicate m 0) = Inr (ds, g')" by blast
  with u show ?case by simp
qed

lemma sample_generation_parked: "parked_generation sample_generation"
  unfolding parked_generation_def
  by (intro conjI exI[of _ 1])
     (simp_all add: sample_generation_def launched_ball_def parked_def Basketball_init_def
        fresh_lengths)

text \<open>
  The timing of the calls that return: start from a freshly
  constructed generation of at least one ball and call \<open>update\<close> up to 1262 times, with
  any time steps. Every one of those calls that returns, returns false. Once 1262
  calls have returned, the next call, the 1263rd, returns true whatever its time step,
  resets the timer to 0 and leaves every ball as it was, so no physics step is taken.
\<close>

theorem completion_timing:
  assumes "Generation_init n r = Inr (g, r')" and "1 \<le> n"
    and "length dts \<le> 1262" and "run g dts = Inr (ds, g1)"
  shows "ds = replicate (length dts) False \<and>
         (length dts = 1262 \<longrightarrow>
            Generation_update dt g1 = Inr (True, g1\<lparr>last_gene := 0\<rparr>))"
proof -
  from assms(1) have l: "lockstep g 1" by (rule Generation_init_lockstep)
  from assms(1,2) have ne: "population g \<noteq> []" and t: "last_gene g = 0"
    by (auto simp: Generation_init_eq)
  from run_before_done[OF l ne _ assms(4)] t assms(3) obtain k' where
    ds: "ds = replicate (length dts) False" and ne1: "population g1 \<noteq> []"
    and t1: "last_gene g1 \<le> 420" and l1: "lockstep g1 k'"
    and m: "(3 - k') * 421 + (420 - last_gene g1) = 1262 - length dts"
    by auto
  have "Generation_update dt g1 = Inr (True, g1\<lparr>last_gene := 0\<rparr>)" if "length dts = 1262"
  proof -
    from that m t1 l1 have k': "k' = 3" and e: "last_gene g1 = 420"
      by (auto simp: lockstep_def)
    from ne1 obtain b0 rest where p: "population g1 = b0 # rest"
      by (cases "population g1") auto
    with l1 k' have "gene_i b0 = 3" by (simp add: lockstep_def)
    with p e show ?thesis by (simp add: Generation_update_alt)
  qed
  with ds show ?thesis by simp
qed

theorem completion_timing_witness:
  "Generation_init 2 (\<lambda>_. 0) = Inr (sample_generation, \<lambda>_. 0) \<and> (1::nat) \<le> 2 \<and>
   length (replicate 1262 (0::real)) = 1262 \<and>
   (\<exists>ds g1. run sample_generation (replicate 1262 0) = Inr (ds, g1) \<and>
      ds = replicate 1262 False \<and>
      Generation_update (1 / 60) g1 = Inr (True, g1\<lparr>last_gene := 0\<rparr>))"
proof -
  from parked_generation_run[OF sample_generation_parked, of 1262] obtain ds g1 where
    r: "run sample_generation (replicate 1262 0) = Inr (ds, g1)" by blast
  have n: "(1::nat) \<le> 2" and l: "length (replicate 1262 (0::real)) = 1262" by simp_all
  from l have l': "length (replicate 1262 (0::real)) \<le> 1262" by simp
  from completion_timing[OF sample_generation_init n l' r, of "1 / 60"] r
    sample_generation_init n l
  show ?thesis by auto
qed


section \<open>The genes of the next generation\<close>

lemma inherit_gene_eq:
  assumes "i < length (gene_dir w)" and "i < length (gene_strength w)"
  shows "inherit_gene (Some w) i r = Inr (slot_gene w i r, rdrop 3 r)"
proof -
  have m: "\<And>q. \<not> unit_of_draw q < MUTATION_CHANCE"
    using unit_of_draw_range by (simp add: MUTATION_CHANCE_def not_less)
  show ?thesis
    using assms
    by (simp add: inherit_gene_def slot_gene_def random_def randint_def winner_dir_def
        winner_strength_def m rdrop_def eval_nat_numeral Let_def)
qed

lemma inherit_loop_eq:
  assumes "length (gene_dir w) = 3" and "length (gene_strength w) = 3"
  shows "inherit_loop (Some w) [0, 1, 2] [] [] r =
           Inr (map fst (slot_genes w r), map snd (slot_genes w r), rdrop 9 r)"
  using assms by (simp add: inherit_gene_eq slot_genes_def rdrop_rdrop case_prod_beta)

lemma overwrite_genes_eq:
  assumes "length (gene_dir w) = 3" and "length (gene_strength w) = 3"
  shows "overwrite_genes (Some w) bs r =
     Inr (map (\<lambda>j. (bs ! j)\<lparr>gene_dir := map fst (slot_genes w (rdrop (9 * j) r)),
                            gene_strength := map snd (slot_genes w (rdrop (9 * j) r))\<rparr>)
            [0..<length bs],
          rdrop (9 * length bs) r)"
proof (induction bs arbitrary: r)
  case Nil
  then show ?case by (simp add: rdrop_0)
next
  case (Cons b bs)
  have "[0..<length (b # bs)] = 0 # map Suc [0..<length bs]"
    by (simp add: upt_conv_Cons map_Suc_upt del: upt_Suc)
  then show ?case
    by (simp only: overwrite_genes.simps inherit_loop_eq[OF assms] Cons.IH)
       (simp add: rdrop_rdrop rdrop_0 o_def add.commute del: upt_Suc)
qed

lemma last_sort_Max:
  fixes xs :: "real list"
  assumes "xs \<noteq> []"
  shows "last (sort xs) = Max (set xs)"
proof -
  have ne: "sort xs \<noteq> []" using assms by (metis length_0_conv length_sort)
  have "last (sort xs) \<in> set (sort xs)" using ne by (rule last_in_set)
  then have m: "last (sort xs) \<in> set xs" by simp
  have "y \<le> last (sort xs)" if "y \<in> set xs" for y
  proof -
    from that have "y \<in> set (sort xs)" by simp
    then obtain i where i: "i < length (sort xs)" "sort xs ! i = y"
      by (metis in_set_conv_nth)
    have "sorted (sort xs)" by simp
    then have "sort xs ! i \<le> sort xs ! (length (sort xs) - 1)"
      using i(1) by (intro sorted_nth_mono) auto
    with i(2) ne show ?thesis by (simp add: last_conv_nth)
  qed
  with m show ?thesis by (intro Max_eqI[symmetric]) auto
qed

lemma winner_eq:
  assumes "population g \<noteq> []"
  shows "\<exists>w. winner g = Inr (Some w) \<and> w \<in> set (population g) \<and>
     find (\<lambda>b. fitness b = Max (fitness ` set (population g))) (population g) = Some w"
proof -
  let ?m = "Max (fitness ` set (population g))"
  have h: "highest_fitness g = Inr ?m"
    using assms last_sort_Max[of "map fitness (population g)"]
    by (simp add: highest_fitness_def Let_def)
  have "?m \<in> fitness ` set (population g)"
    using assms by (intro Max_in) auto
  then have "\<exists>b \<in> set (population g). fitness b = ?m" by auto
  then obtain w where w: "find (\<lambda>b. fitness b = ?m) (population g) = Some w"
    by (cases "find (\<lambda>b. fitness b = ?m) (population g)") (auto simp: find_None_iff)
  then have "w \<in> set (population g)" by (auto simp: find_Some_iff)
  with w h show ?thesis by (simp add: winner_def)
qed

lemma next_generation_eq:
  assumes "population (generation s) \<noteq> []"
    and "\<forall>b \<in> set (population (generation s)).
           length (gene_dir b) = 3 \<and> length (gene_strength b) = 3"
  shows "\<exists>w. find (\<lambda>b. fitness b = Max (fitness ` set (population (generation s))))
                (population (generation s)) = Some w \<and>
     next_generation s r =
       Inr (s\<lparr>generation :=
               \<lparr>population =
                  map (\<lambda>j. (launched_ball (rdrop (6 * j) r))
                       \<lparr>gene_dir := map fst (slot_genes w (rdrop (6 * solver_population s + 9 * j) r)),
                        gene_strength := map snd (slot_genes w (rdrop (6 * solver_population s + 9 * j) r))\<rparr>)
                    [0..<solver_population s],
                last_gene = 0\<rparr>,
              generation_n := generation_n s + 1\<rparr>,
            rdrop (15 * solver_population s) r)"
proof -
  from winner_eq[OF assms(1)] obtain w where
    w: "winner (generation s) = Inr (Some w)" and m: "w \<in> set (population (generation s))"
    and f: "find (\<lambda>b. fitness b = Max (fitness ` set (population (generation s))))
                (population (generation s)) = Some w"
    by blast
  from m assms(2) have l: "length (gene_dir w) = 3" "length (gene_strength w) = 3" by auto
  have "next_generation s r =
       Inr (s\<lparr>generation :=
               \<lparr>population =
                  map (\<lambda>j. (launched_ball (rdrop (6 * j) r))
                       \<lparr>gene_dir := map fst (slot_genes w (rdrop (6 * solver_population s + 9 * j) r)),
                        gene_strength := map snd (slot_genes w (rdrop (6 * solver_population s + 9 * j) r))\<rparr>)
                    [0..<solver_population s],
                last_gene = 0\<rparr>,
              generation_n := generation_n s + 1\<rparr>,
            rdrop (15 * solver_population s) r)"
    by (simp add: next_generation_def w Generation_init_eq overwrite_genes_eq[OF l]
        rdrop_rdrop add.commute cong: map_cong)
  with f show ?thesis by blast
qed

lemma slot_genes_nth:
  assumes "i < 3"
  shows "slot_genes w r ! i = slot_gene w i (rdrop (3 * i) r)"
proof -
  from assms have "i = 0 \<or> i = 1 \<or> i = 2" by auto
  then show ?thesis by (auto simp: slot_genes_def rdrop_0)
qed

lemma slot_genes_length: "length (slot_genes w r) = 3"
  by (simp add: slot_genes_def)

lemma sample_solver_facts:
  "population (generation sample_solver) \<noteq> []"
  "\<forall>b \<in> set (population (generation sample_solver)).
     length (gene_dir b) = 3 \<and> length (gene_strength b) = 3"
  "solver_population sample_solver = 2"
  by (simp_all add: sample_solver_def sample_generation_def launched_ball_zero)

text \<open>
  C3: \<open>MUTATION_CHANCE\<close> is 0. When the generation being replaced is not empty and its
  balls hold three genes each, \<open>next_generation\<close> returns; the winner \<open>w\<close> it inherits
  from is the first ball, in list order, whose fitness is the maximum over that
  generation. The new generation has \<open>solver_population\<close> balls, and for ball \<open>j\<close> and
  slot \<open>i\<close>, with the random source as it stands when that slot begins (after the
  \<open>6 * n\<close> draws of the constructor and three draws for every earlier slot): if the
  first draw, the inherit draw, is below 0.75, the slot's direction and strength are
  the winner's for that slot; otherwise they are the next two draws, a \<open>randint 0 359\<close>
  and a \<open>randint 65 2300\<close>, in which the winner does not occur.
\<close>

theorem inheritance_without_mutation:
  assumes "population (generation s) \<noteq> []"
    and "\<forall>b \<in> set (population (generation s)).
           length (gene_dir b) = 3 \<and> length (gene_strength b) = 3"
  shows "\<exists>w s' r'.
     find (\<lambda>b. fitness b = Max (fitness ` set (population (generation s))))
       (population (generation s)) = Some w \<and>
     next_generation s r = Inr (s', r') \<and>
     length (population (generation s')) = solver_population s \<and>
     (\<forall>j < solver_population s. \<forall>i < 3.
        (fst (random (rdrop (6 * solver_population s + 9 * j + 3 * i) r)) < 0.75 \<longrightarrow>
           gene_dir (population (generation s') ! j) ! i = gene_dir w ! i \<and>
           gene_strength (population (generation s') ! j) ! i = gene_strength w ! i) \<and>
        (\<not> fst (random (rdrop (6 * solver_population s + 9 * j + 3 * i) r)) < 0.75 \<longrightarrow>
           gene_dir (population (generation s') ! j) ! i
             = fst (randint 0 359 (rdrop (6 * solver_population s + 9 * j + 3 * i + 1) r)) \<and>
           gene_strength (population (generation s') ! j) ! i
             = fst (randint 65 2300 (rdrop (6 * solver_population s + 9 * j + 3 * i + 2) r))))"
proof -
  let ?n = "solver_population s"
  from next_generation_eq[OF assms, of r] obtain w where
    f: "find (\<lambda>b. fitness b = Max (fitness ` set (population (generation s))))
          (population (generation s)) = Some w"
    and n: "next_generation s r =
       Inr (s\<lparr>generation :=
               \<lparr>population =
                  map (\<lambda>j. (launched_ball (rdrop (6 * j) r))
                       \<lparr>gene_dir := map fst (slot_genes w (rdrop (6 * ?n + 9 * j) r)),
                        gene_strength := map snd (slot_genes w (rdrop (6 * ?n + 9 * j) r))\<rparr>)
                    [0..<?n],
                last_gene = 0\<rparr>,
              generation_n := generation_n s + 1\<rparr>,
            rdrop (15 * ?n) r)"
    by blast
  let ?s' = "s\<lparr>generation :=
               \<lparr>population =
                  map (\<lambda>j. (launched_ball (rdrop (6 * j) r))
                       \<lparr>gene_dir := map fst (slot_genes w (rdrop (6 * ?n + 9 * j) r)),
                        gene_strength := map snd (slot_genes w (rdrop (6 * ?n + 9 * j) r))\<rparr>)
                    [0..<?n],
                last_gene = 0\<rparr>,
              generation_n := generation_n s + 1\<rparr>"
  have len: "length (population (generation ?s')) = ?n" by simp
  have slots: "gene_dir (population (generation ?s') ! j) ! i
          = fst (slot_gene w i (rdrop (6 * ?n + 9 * j + 3 * i) r)) \<and>
        gene_strength (population (generation ?s') ! j) ! i
          = snd (slot_gene w i (rdrop (6 * ?n + 9 * j + 3 * i) r))"
    if "j < ?n" "i < 3" for j i
    using that
    by (simp add: slot_genes_length slot_genes_nth rdrop_rdrop add.commute add.left_commute)
  have "\<forall>j < ?n. \<forall>i < 3.
        (fst (random (rdrop (6 * ?n + 9 * j + 3 * i) r)) < 0.75 \<longrightarrow>
           gene_dir (population (generation ?s') ! j) ! i = gene_dir w ! i \<and>
           gene_strength (population (generation ?s') ! j) ! i = gene_strength w ! i) \<and>
        (\<not> fst (random (rdrop (6 * ?n + 9 * j + 3 * i) r)) < 0.75 \<longrightarrow>
           gene_dir (population (generation ?s') ! j) ! i
             = fst (randint 0 359 (rdrop (6 * ?n + 9 * j + 3 * i + 1) r)) \<and>
           gene_strength (population (generation ?s') ! j) ! i
             = fst (randint 65 2300 (rdrop (6 * ?n + 9 * j + 3 * i + 2) r)))"
  proof (intro allI impI)
    fix j i :: nat assume "j < ?n" "i < 3"
    from slots[OF this] show
       "(fst (random (rdrop (6 * ?n + 9 * j + 3 * i) r)) < 0.75 \<longrightarrow>
           gene_dir (population (generation ?s') ! j) ! i = gene_dir w ! i \<and>
           gene_strength (population (generation ?s') ! j) ! i = gene_strength w ! i) \<and>
        (\<not> fst (random (rdrop (6 * ?n + 9 * j + 3 * i) r)) < 0.75 \<longrightarrow>
           gene_dir (population (generation ?s') ! j) ! i
             = fst (randint 0 359 (rdrop (6 * ?n + 9 * j + 3 * i + 1) r)) \<and>
           gene_strength (population (generation ?s') ! j) ! i
             = fst (randint 65 2300 (rdrop (6 * ?n + 9 * j + 3 * i + 2) r)))"
      by (simp add: slot_gene_def rdrop_rdrop add.commute add.left_commute)
  qed
  with f n len show ?thesis by blast
qed

theorem inheritance_without_mutation_witness:
  "population (generation sample_solver) \<noteq> [] \<and>
   fst (random (\<lambda>_. 0)) < 0.75 \<and> \<not> fst (random (\<lambda>_. 3 * 2 ^ 51)) < 0.75 \<and>
   (\<exists>w s' r'.
      find (\<lambda>b. fitness b = Max (fitness ` set (population (generation sample_solver))))
        (population (generation sample_solver)) = Some w \<and>
      next_generation sample_solver (\<lambda>_. 0) = Inr (s', r') \<and>
      gene_dir (population (generation s') ! 1) ! 2 = gene_dir w ! 2 \<and>
      gene_strength (population (generation s') ! 1) ! 2 = gene_strength w ! 2) \<and>
   (\<exists>s' r'.
      next_generation sample_solver (\<lambda>_. 3 * 2 ^ 51) = Inr (s', r') \<and>
      gene_dir (population (generation s') ! 1) ! 2 = fst (randint 0 359 (\<lambda>_. 3 * 2 ^ 51)) \<and>
      gene_strength (population (generation s') ! 1) ! 2
        = fst (randint 65 2300 (\<lambda>_. 3 * 2 ^ 51)))"
proof -
  have lo: "fst (random (\<lambda>_. 0)) < 0.75"
    by (simp add: random_def unit_of_draw_def)
  have hi: "\<not> fst (random (\<lambda>_. 3 * 2 ^ 51)) < 0.75"
    by (simp add: random_def unit_of_draw_def)
  have j: "(1::nat) < 2" and i: "(2::nat) < 3" by simp_all
  from inheritance_without_mutation[OF sample_solver_facts(1,2), of "\<lambda>_. 0"]
  have a: "\<exists>w s' r'.
      find (\<lambda>b. fitness b = Max (fitness ` set (population (generation sample_solver))))
        (population (generation sample_solver)) = Some w \<and>
      next_generation sample_solver (\<lambda>_. 0) = Inr (s', r') \<and>
      gene_dir (population (generation s') ! 1) ! 2 = gene_dir w ! 2 \<and>
      gene_strength (population (generation s') ! 1) ! 2 = gene_strength w ! 2"
    using lo j i unfolding sample_solver_facts(3) rdrop_const by blast
  from inheritance_without_mutation[OF sample_solver_facts(1,2), of "\<lambda>_. 3 * 2 ^ 51"]
  have b: "\<exists>s' r'.
      next_generation sample_solver (\<lambda>_. 3 * 2 ^ 51) = Inr (s', r') \<and>
      gene_dir (population (generation s') ! 1) ! 2 = fst (randint 0 359 (\<lambda>_. 3 * 2 ^ 51)) \<and>
      gene_strength (population (generation s') ! 1) ! 2
        = fst (randint 65 2300 (\<lambda>_. 3 * 2 ^ 51))"
    using hi j i unfolding sample_solver_facts(3) rdrop_const by blast
  from a b lo hi sample_solver_facts(1) show ?thesis by blast
qed

section \<open>The first gene of an inherited generation\<close>

lemma inherit_loop_length:
  assumes "inherit_loop w ixs gd gs r = Inr (gd', gs', r')"
  shows "length gd' = length gd + length ixs \<and> length gs' = length gs + length ixs"
  using assms
proof (induction ixs arbitrary: gd gs r)
  case Nil
  then show ?case by simp
next
  case (Cons i ixs)
  from Cons.prems obtain d s r1 where
    "inherit_loop w ixs (gd @ [d]) (gs @ [s]) r1 = Inr (gd', gs', r')"
    by (auto split: sum.splits)
  from Cons.IH[OF this] show ?case by simp
qed

lemma overwrite_genes_frame:
  assumes "overwrite_genes w bs r = Inr (bs', r')"
  shows "list_all2 (\<lambda>b b'. gene_i b' = gene_i b \<and> force b' = force b \<and>
            length (gene_dir b') = 3 \<and> length (gene_strength b') = 3) bs bs'"
  using assms
proof (induction bs arbitrary: bs' r r')
  case Nil
  then show ?case by simp
next
  case (Cons b bs)
  from Cons.prems obtain gd gs r1 rest r2 where
    l: "inherit_loop w [0, 1, 2] [] [] r = Inr (gd, gs, r1)"
    and o: "overwrite_genes w bs r1 = Inr (rest, r2)"
    and b': "bs' = b\<lparr>gene_dir := gd, gene_strength := gs\<rparr> # rest"
    by (auto split: sum.splits)
  from inherit_loop_length[OF l] Cons.IH[OF o] b' show ?case by simp
qed

lemma later_state_genes:
  assumes "later_state b c"
  shows "gene_i b \<le> gene_i c \<and> gene_dir c = gene_dir b \<and> gene_strength c = gene_strength b"
  using assms
proof (induction rule: later_state.induct)
  case (now b)
  then show ?case by simp
next
  case (gene b c c')
  then show ?case by (auto simp: apply_gene_def split: if_splits)
next
  case (step b c dt c')
  with update_keeps_genes[of dt c c'] show ?case by simp
qed

text \<open>
  C4: when \<open>next_generation\<close> returns, every ball of the new generation has \<open>gene_i = 1\<close>
  and carries the force of the first gene that the constructor drew for it (the
  direction and strength at draws \<open>6 * j\<close> and \<open>6 * j + 1\<close>), not of the gene written
  into slot 0 afterwards. In every later state of the ball, a call of \<open>apply_gene\<close> that
  returns is either the no-op at \<open>gene_i = 3\<close> or applies slot 1 or slot 2 of the ball's
  genes; slot 0 is never applied.
\<close>

theorem first_gene_never_inherited:
  assumes "next_generation s r = Inr (s', r')"
    and "j < length (population (generation s'))"
  shows "gene_i (population (generation s') ! j) = 1 \<and>
     force (population (generation s') ! j)
       = gene_force (fst (randint 0 359 (rdrop (6 * j) r)))
           (fst (randint 65 2300 (rdrop (6 * j + 1) r))) \<and>
     (\<forall>c c'. later_state (population (generation s') ! j) c \<and> apply_gene c = Inr c' \<longrightarrow>
        (gene_i c = 3 \<and> c' = c) \<or>
        ((gene_i c = 1 \<or> gene_i c = 2) \<and> gene_i c' = gene_i c + 1 \<and>
         force c' = gene_force (gene_dir (population (generation s') ! j) ! gene_i c)
                      (gene_strength (population (generation s') ! j) ! gene_i c)))"
proof -
  let ?n = "solver_population s"
  let ?b = "population (generation s') ! j"
  from assms(1) obtain w balls where
    o: "overwrite_genes w (map (\<lambda>j. launched_ball (rdrop (6 * j) r)) [0..<?n])
          (rdrop (6 * ?n) r) = Inr (balls, r')"
    and s': "population (generation s') = balls"
    by (auto simp: next_generation_def Generation_init_eq split: sum.splits)
  from overwrite_genes_frame[OF o] assms(2) s' have
    j: "j < ?n" and
    f: "gene_i ?b = gene_i (launched_ball (rdrop (6 * j) r))"
       "force ?b = force (launched_ball (rdrop (6 * j) r))"
       "length (gene_dir ?b) = 3" "length (gene_strength ?b) = 3"
    by (auto simp: list_all2_conv_all_nth)
  have g: "gene_i ?b = 1" using f(1) by (simp add: launched_ball_def)
  have fo: "force ?b = gene_force (fst (randint 0 359 (rdrop (6 * j) r)))
           (fst (randint 65 2300 (rdrop (6 * j + 1) r)))"
    using f(2) by (simp add: launched_ball_def fresh_dirs_def fresh_strengths_def rdrop_rdrop)
  have l: "(gene_i c = 3 \<and> c' = c) \<or>
        ((gene_i c = 1 \<or> gene_i c = 2) \<and> gene_i c' = gene_i c + 1 \<and>
         force c' = gene_force (gene_dir ?b ! gene_i c) (gene_strength ?b ! gene_i c))"
    if "later_state ?b c" "apply_gene c = Inr c'" for c c'
  proof -
    from later_state_genes[OF that(1)] g f(3,4) have
      "1 \<le> gene_i c" "gene_dir c = gene_dir ?b" "gene_strength c = gene_strength ?b"
      "length (gene_dir c) = 3" "length (gene_strength c) = 3"
      by simp_all
    with that(2) show ?thesis
      by (auto simp: apply_gene_def split: if_splits)
  qed
  from g fo l show ?thesis by blast
qed

theorem first_gene_never_inherited_witness:
  "\<exists>s' r' c'.
     next_generation sample_solver (\<lambda>_. 0) = Inr (s', r') \<and>
     0 < length (population (generation s')) \<and>
     gene_i (population (generation s') ! 0) = 1 \<and>
     force (population (generation s') ! 0) = gene_force 0 65 \<and>
     later_state (population (generation s') ! 0) (population (generation s') ! 0) \<and>
     apply_gene (population (generation s') ! 0) = Inr c' \<and>
     gene_i c' = 2 \<and>
     force c' = gene_force (gene_dir (population (generation s') ! 0) ! 1)
                  (gene_strength (population (generation s') ! 0) ! 1)"
proof -
  from next_generation_eq[OF sample_solver_facts(1,2), of "\<lambda>_. 0"] obtain w where
    n0: "next_generation sample_solver (\<lambda>_. 0) =
       Inr (sample_solver\<lparr>generation :=
               \<lparr>population =
                  map (\<lambda>j. (launched_ball (rdrop (6 * j) (\<lambda>_. 0)))
                       \<lparr>gene_dir := map fst (slot_genes w
                          (rdrop (6 * solver_population sample_solver + 9 * j) (\<lambda>_. 0))),
                        gene_strength := map snd (slot_genes w
                          (rdrop (6 * solver_population sample_solver + 9 * j) (\<lambda>_. 0)))\<rparr>)
                    [0..<solver_population sample_solver],
                last_gene = 0\<rparr>,
              generation_n := generation_n sample_solver + 1\<rparr>,
            rdrop (15 * solver_population sample_solver) (\<lambda>_. 0))"
    by blast
  define s' where "s' = sample_solver\<lparr>generation :=
               \<lparr>population =
                  map (\<lambda>j. (launched_ball (rdrop (6 * j) (\<lambda>_. 0)))
                       \<lparr>gene_dir := map fst (slot_genes w
                          (rdrop (6 * solver_population sample_solver + 9 * j) (\<lambda>_. 0))),
                        gene_strength := map snd (slot_genes w
                          (rdrop (6 * solver_population sample_solver + 9 * j) (\<lambda>_. 0)))\<rparr>)
                    [0..<solver_population sample_solver],
                last_gene = 0\<rparr>,
              generation_n := generation_n sample_solver + 1\<rparr>"
  define r' where "r' = rdrop (15 * solver_population sample_solver) (\<lambda>_. 0)"
  have n: "next_generation sample_solver (\<lambda>_. 0) = Inr (s', r')"
    unfolding s'_def r'_def by (rule n0)
  have p: "population (generation s') =
       map (\<lambda>j. (launched_ball (rdrop (6 * j) (\<lambda>_. 0)))
             \<lparr>gene_dir := map fst (slot_genes w
                 (rdrop (6 * solver_population sample_solver + 9 * j) (\<lambda>_. 0))),
              gene_strength := map snd (slot_genes w
                 (rdrop (6 * solver_population sample_solver + 9 * j) (\<lambda>_. 0)))\<rparr>)
         [0..<solver_population sample_solver]"
    by (simp add: s'_def)
  let ?b = "population (generation s') ! 0"
  have len: "0 < length (population (generation s'))"
    by (simp add: p sample_solver_facts(3))
  have b: "?b = (launched_ball (\<lambda>_. 0))
             \<lparr>gene_dir := map fst (slot_genes w (\<lambda>_. 0)),
              gene_strength := map snd (slot_genes w (\<lambda>_. 0))\<rparr>"
    by (simp add: p sample_solver_facts(3) rdrop_const)
  have "\<exists>c'. apply_gene ?b = Inr c'"
    by (simp add: b apply_gene_def slot_genes_length launched_ball_zero)
  then obtain c' where a: "apply_gene ?b = Inr c'" ..
  have l: "later_state ?b ?b" by (rule later_state.now)
  have z: "fst (randint 0 359 (\<lambda>_. 0)) = 0" "fst (randint 65 2300 (\<lambda>_. 0)) = 65"
    by (simp_all add: randint_def int_of_draw_def)
  note t = first_gene_never_inherited[OF n len]
  from t have g: "gene_i ?b = 1" by blast
  from t have f: "force ?b = gene_force 0 65"
    by (simp add: rdrop_const z)
  from t l a have "(gene_i ?b = 3 \<and> c' = ?b) \<or>
        ((gene_i ?b = 1 \<or> gene_i ?b = 2) \<and> gene_i c' = gene_i ?b + 1 \<and>
         force c' = gene_force (gene_dir ?b ! gene_i ?b) (gene_strength ?b ! gene_i ?b))"
    by blast
  with g have "gene_i c' = 2 \<and>
     force c' = gene_force (gene_dir ?b ! 1) (gene_strength ?b ! 1)"
    by simp
  with n len g f l a show ?thesis by blast
qed


section \<open>A call that does not return\<close>

lemma net_centre_raises:
  assumes "5.3 \<le> fst (position b)" and "snd (position b) = 3.2"
    and "net_dist (smul (velocity (integrate_acceleration dt b)) dt) b \<le> radius b + 0.3"
  shows "update dt b = Inl ValueError"
proof -
  let ?b1 = "integrate_acceleration dt b"
  let ?fv = "smul (velocity ?b1) dt"
  let ?b2 = "resolve_walls ?fv ?b1"
  have p: "position ?b2 = position b" "radius ?b2 = radius b"
    by (simp_all add: resolve_walls_def integrate_acceleration_def Let_def)
  have "net_of ?b2 = position ?b2"
    using assms(1,2) p by (simp add: net_of_def max_def prod_eq_iff)
  then have z: "normalize_vec (vsub (net_of ?b2) (position ?b2)) = Inl ValueError"
    by (simp add: normalize_vec_def vsub_def vlength_zero)
  have "net_dist ?fv ?b2 = net_dist ?fv b"
    using p by (simp add: net_dist_def net_of_def)
  then have "resolve_net ?fv ?b2 = Inl ValueError"
    using assms(3) p z by (simp add: resolve_net_def Let_def)
  then show ?thesis by (simp add: update_def Let_def)
qed

lemma resolve_walls_eq:
  "resolve_walls fv b =
     b\<lparr>velocity := (if hits_wall_x fv b then fst (velocity b) * - elasticity b
                       else fst (velocity b),
                     if hits_wall_y fv b then snd (velocity b) * - elasticity b
                       else snd (velocity b))\<rparr>"
  by (simp add: resolve_walls_def hits_wall_y_def Let_def)

lemma gene_force_180: "gene_force 180 s = (- real_of_int s, 0)"
proof -
  have "(180::real) * pi / 180 = pi" by simp
  then show ?thesis by (simp add: gene_force_def rotate_vec_def smul_def Let_def)
qed

lemma crash_ball:
  "launched_ball crash_rng =
     (Basketball_init (1 / 2, 13 / 2))
       \<lparr>force := (- 65, 0), gene_i := 1, gene_dir := [180, 0, 0],
        gene_strength := [65, 65, 65]\<rparr>"
  by (simp add: launched_ball_def fresh_dirs_def fresh_strengths_def randint_def
      int_of_draw_def rdrop_def crash_rng_def gene_force_180 UNIT_def)

lemma crash_first_step:
  assumes "d * d = 34375 / 81096"
  shows "\<exists>b1. update d (launched_ball crash_rng) = Inr b1 \<and>
     5.3 \<le> fst (position b1) \<and> snd (position b1) = 3.2 \<and> radius b1 = 0.484"
proof -
  let ?b0 = "launched_ball crash_rng"
  let ?a = "integrate_acceleration d ?b0"
  let ?fv = "smul (velocity ?a) d"
  have v: "velocity ?a = (- 104 * d, 9.81 * d)"
    by (simp add: crash_ball Basketball_init_def integrate_acceleration_def vadd_def smul_def
        GRAVITY_def)
  have "fst ?fv = - 104 * (d * d)" "snd ?fv = 9.81 * (d * d)"
    by (simp_all add: v smul_def)
  then have fv: "?fv = (- 104 * (34375 / 81096), 9.81 * (34375 / 81096))"
    by (simp add: assms prod_eq_iff)
  have far: "radius ?b0 + 0.3 < net_dist ?fv ?b0"
    using net_dist_ge_x[of ?b0 ?fv] unfolding fv
    by (simp add: crash_ball Basketball_init_def)
  define b2 where "b2 = resolve_walls ?fv ?a"
  from far have u: "update d ?b0 = Inr (integrate_velocity d b2)"
    unfolding b2_def by (rule update_clear)
  have hx: "hits_wall_x ?fv ?a" and hy: "hits_wall_y ?fv ?a"
    unfolding fv
    by (simp_all add: hits_wall_x_def hits_wall_y_def crash_ball Basketball_init_def
        integrate_acceleration_def WINDOW_WIDTH_def WINDOW_HEIGHT_def UNIT_def)
  have "b2 =
      ?a\<lparr>velocity := (fst (velocity ?a) * - elasticity ?a, snd (velocity ?a) * - elasticity ?a)\<rparr>"
    unfolding b2_def using hx hy by (simp only: resolve_walls_eq if_True)
  then have w: "velocity b2 = (104 * d * 0.8, - (9.81 * d * 0.8))"
    and pw: "position b2 = (1 / 2, 13 / 2)"
    and rw: "radius b2 = 0.484"
    by (simp_all add: v)
       (simp_all add: crash_ball Basketball_init_def integrate_acceleration_def)
  have px: "fst (position (integrate_velocity d b2)) = 1 / 2 + 104 * 0.8 * 0.992 * (d * d)"
    and py: "snd (position (integrate_velocity d b2)) = 13 / 2 - 9.81 * 0.8 * 0.992 * (d * d)"
    and r1: "radius (integrate_velocity d b2) = 0.484"
    by (simp_all add: integrate_velocity_def Let_def w pw rw smul_def vadd_def AIR_FRICTION_def
        algebra_simps)
  have "5.3 \<le> fst (position (integrate_velocity d b2))"
    "snd (position (integrate_velocity d b2)) = 3.2"
    unfolding px py assms by simp_all
  with u r1 show ?thesis by blast
qed

text \<open>
  C1: a call among the first 1262 need not return. The generation built for one ball
  whose first gene is direction 180, strength 65 is stepped by sqrt (34375 / 81096):
  the ball bounces off the left wall and the floor and lands at height 3.2, right of
  5.3, where the centre of the net coincides with it. The second call, with a step of
  0, then raises \<open>ValueError\<close> instead of returning false.
\<close>

theorem completion_counterexample:
  "Generation_init 1 crash_rng = Inr (crash_generation, rdrop 6 crash_rng) \<and>
   length crash_steps \<le> 1262 \<and>
   run crash_generation crash_steps = Inl ValueError"
proof -
  have i: "Generation_init 1 crash_rng = Inr (crash_generation, rdrop 6 crash_rng)"
    by (simp add: Generation_init_eq crash_generation_def rdrop_0)
  let ?d = "sqrt (34375 / 81096)"
  have "?d * ?d = 34375 / 81096" by simp
  from crash_first_step[OF this] obtain b1 where
    u: "update ?d (launched_ball crash_rng) = Inr b1"
    and p: "5.3 \<le> fst (position b1)" "snd (position b1) = 3.2" and r: "radius b1 = 0.484"
    by blast
  have s1: "Generation_update ?d crash_generation
      = Inr (False, \<lparr>population = [b1], last_gene = 1\<rparr>)"
    by (simp add: Generation_update_alt crash_generation_def u)
  have "net_of b1 = position b1"
    using p by (simp add: net_of_def max_def prod_eq_iff)
  then have "net_dist (smul (velocity (integrate_acceleration 0 b1)) 0) b1 = 0"
    by (simp add: net_dist_def smul_def vadd_def vsub_def vlength_zero)
  then have "update 0 b1 = Inl ValueError"
    using p r by (intro net_centre_raises) simp_all
  then have s2: "Generation_update 0 \<lparr>population = [b1], last_gene = 1\<rparr> = Inl ValueError"
    by (simp add: Generation_update_alt)
  from s1 s2 have "run crash_generation crash_steps = Inl ValueError"
    by (simp add: crash_steps_def)
  with i show ?thesis by (simp add: crash_steps_def)
qed

end
